theory Spec2Isabelle
  imports Complex_Main
begin

section \<open>The GRR thread pool (threadpool.py): data model\<close>

text \<open>
  The module is Python 2 code built on three library objects: \<^verbatim>\<open>Queue.Queue\<close> (a bounded
  FIFO with an outstanding-work counter), \<^verbatim>\<open>threading.Thread\<close> and the metrics sink
  \<^verbatim>\<open>stats.STATS\<close>. Mutable objects become records that are passed through every
  operation; what another thread or the operating system decides (whether a thread can
  be started, the CPU reading, the result of calling a task's target) is an explicit
  argument of the operation that consumes it.
\<close>

subsection \<open>Exceptions\<close>

text \<open>
  Everything the module raises or lets through. \<open>Full\<close> and
  \<open>DuplicateThreadpoolError\<close> are the module's own classes; \<open>ThreadError\<close> and
  \<open>RuntimeError\<close> are what \<^verbatim>\<open>Thread.start()\<close> raises; \<open>ValueError\<close> is raised by
  \<^verbatim>\<open>Queue.task_done()\<close> when called too often; \<open>ZeroDivisionError\<close> comes from
  \<^verbatim>\<open>len(values) // batch_size\<close>. A task body may raise anything: \<open>Exception s\<close> is any
  other instance of \<^verbatim>\<open>Exception\<close> with \<^verbatim>\<open>str(e) = s\<close>, \<open>BaseException s\<close> a raised
  object that is not an instance of \<^verbatim>\<open>Exception\<close> (\<^verbatim>\<open>SystemExit\<close>,
  \<^verbatim>\<open>KeyboardInterrupt\<close>).
\<close>

datatype error =
    Full
  | DuplicateThreadpoolError
  | ThreadError
  | RuntimeError
  | ValueError
  | ZeroDivisionError
  | Exception string
  | BaseException string

text \<open>\<^verbatim>\<open>except Exception\<close> catches exactly the instances of \<^verbatim>\<open>Exception\<close>.\<close>

fun is_Exception :: "error \<Rightarrow> bool" where
  "is_Exception (BaseException s) = False"
| "is_Exception e = True"

fun str :: "error \<Rightarrow> string" where
  "str (Exception s) = s"
| "str (BaseException s) = s"
| "str Full = ''''"
| "str DuplicateThreadpoolError = ''A thread pool with the name %s already exists.''"
| "str ThreadError = ''can't start new thread''"
| "str RuntimeError = ''thread.__init__() not called''"
| "str ValueError = ''task_done() called too many times''"
| "str ZeroDivisionError = ''integer division or modulo by zero''"

subsection \<open>Tasks and queue elements\<close>

text \<open>
  A queue message is the tuple \<^verbatim>\<open>(target, args, name, queueing_time)\<close> or the string
  \<^verbatim>\<open>STOP_MESSAGE\<close>. A target is a callable: calling it on its arguments returns
  (\<open>None\<close>) or raises (\<open>Some e\<close>). \<^verbatim>\<open>time.time()\<close> is a real number of seconds.
\<close>

type_synonym 'a task = "('a \<Rightarrow> error option) \<times> 'a \<times> string \<times> real"

datatype 'a message = Task "'a task" | STOP_MESSAGE

subsection \<open>Queue.Queue\<close>

text \<open>
  The standard library's queue: \<open>maxsize\<close> (0 means unbounded), the deque of
  elements and \<open>unfinished_tasks\<close>, which \<^verbatim>\<open>put\<close> increments and
  \<^verbatim>\<open>task_done\<close> decrements; \<^verbatim>\<open>join\<close> blocks until it is zero.
\<close>

record 'a Queue =
  maxsize :: nat
  elements :: "'a list"
  unfinished_tasks :: nat

definition Queue_init :: "nat \<Rightarrow> 'a Queue" where
  "Queue_init m = \<lparr>maxsize = m, elements = [], unfinished_tasks = 0\<rparr>"

definition qsize :: "'a Queue \<Rightarrow> nat" where
  "qsize q = length (elements q)"

text \<open>
  \<^verbatim>\<open>put(item, block=False)\<close>: \<open>None\<close> is \<^verbatim>\<open>Queue.Full\<close>. A blocking \<^verbatim>\<open>put\<close>
  succeeds under the same condition and waits otherwise.
\<close>

definition put_nowait :: "'a \<Rightarrow> 'a Queue \<Rightarrow> 'a Queue option" where
  "put_nowait x q =
     (if 0 < maxsize q \<and> qsize q = maxsize q then None
      else Some (q\<lparr>elements := elements q @ [x],
                   unfinished_tasks := unfinished_tasks q + 1\<rparr>))"

text \<open>\<^verbatim>\<open>get(timeout=60)\<close>: \<open>None\<close> is \<^verbatim>\<open>Queue.Empty\<close>, raised when the wait timed out.\<close>

definition get :: "'a Queue \<Rightarrow> ('a \<times> 'a Queue) option" where
  "get q =
     (case elements q of
        [] \<Rightarrow> None
      | x # xs \<Rightarrow> Some (x, q\<lparr>elements := xs\<rparr>))"

definition task_done :: "'a Queue \<Rightarrow> error + 'a Queue" where
  "task_done q =
     (if unfinished_tasks q = 0 then Inl ValueError
      else Inr (q\<lparr>unfinished_tasks := unfinished_tasks q - 1\<rparr>))"

text \<open>\<^verbatim>\<open>join()\<close> returns once this holds.\<close>

definition join_returns :: "'a Queue \<Rightarrow> bool" where
  "join_returns q \<longleftrightarrow> unfinished_tasks q = 0"

subsection \<open>The metrics sink and the log\<close>

text \<open>
  Modelled from the spec: the metrics sink \<^verbatim>\<open>grr_response_core.lib.stats\<close> is not
  among the sources. The spec (section 6) gives its operations: registering gauges,
  counters and events by name, incrementing a counter, recording an event sample. The
  sink keeps the registered names, a count per counter and the samples per event.
\<close>

record stats =
  registered :: "string list"
  counter :: "string \<Rightarrow> nat"
  samples :: "string \<Rightarrow> real list"

definition RegisterGaugeMetric :: "string \<Rightarrow> stats \<Rightarrow> stats" where
  "RegisterGaugeMetric n s = s\<lparr>registered := registered s @ [n]\<rparr>"

definition RegisterCounterMetric :: "string \<Rightarrow> stats \<Rightarrow> stats" where
  "RegisterCounterMetric n s = s\<lparr>registered := registered s @ [n]\<rparr>"

definition RegisterEventMetric :: "string \<Rightarrow> stats \<Rightarrow> stats" where
  "RegisterEventMetric n s = s\<lparr>registered := registered s @ [n]\<rparr>"

definition IncrementCounter :: "string \<Rightarrow> stats \<Rightarrow> stats" where
  "IncrementCounter n s = s\<lparr>counter := (counter s)(n := counter s n + 1)\<rparr>"

definition RecordEvent :: "string \<Rightarrow> real \<Rightarrow> stats \<Rightarrow> stats" where
  "RecordEvent n v s = s\<lparr>samples := (samples s)(n := samples s n @ [v])\<rparr>"

datatype level = DEBUG | WARNING | ERROR | EXCEPTION

type_synonym log_entry = "level \<times> string \<times> string list"

subsection \<open>Worker threads and the pool\<close>

text \<open>
  Where a worker is in \<^verbatim>\<open>_WorkerThread.run\<close> (lines 138 to 169). A worker that holds a
  task stays at \<open>InTry\<close> for as long as the target runs.
\<close>

datatype after_ack = ThenReturn | ThenPropagate error | ThenAgeCheck

datatype 'a pc =
    NotStarted
  | LoopTop
  | AtGet
  | Holding "'a message"
  | InTry "'a message"
  | AtTaskDone after_ack
  | AtEmpty
  | AtAgeCheck
  | Exited

record 'a worker =
  idle :: bool
  started_time :: real
  pc :: "'a pc"

text \<open>
  The pool object. \<open>workers\<close> and \<open>workers_ro_copy\<close> are the dictionaries
  \<^verbatim>\<open>_workers\<close> and \<^verbatim>\<open>_workers_ro_copy\<close>: a worker's key is its thread name, which the
  \<^verbatim>\<open>threading\<close> module makes unique by numbering the threads, so a key is the thread's
  number and a dictionary is the list of its keys; the worker objects themselves live
  in a store shared by both dictionaries (\<open>threads\<close> below).
\<close>

record 'a pool =
  name :: string
  min_threads :: nat
  max_threads :: nat
  cpu_check :: bool
  queue :: "'a message Queue"
  started :: bool
  workers :: "nat list"
  workers_ro_copy :: "nat list"

text \<open>
  A call of \<^verbatim>\<open>Stop\<close> that is under way: the captured workers and the number of stop
  messages still to be put, then the wait in \<^verbatim>\<open>Join\<close>, then the wait for the threads.
\<close>

datatype stop_pc = Pushing "nat list" nat | Joining "nat list" | JoiningWorkers "nat list"

text \<open>
  One pool together with the process state its code touches: the worker objects, the
  counter that names threads, the metrics, the log, the clock and the \<^verbatim>\<open>Stop\<close> call
  in progress, if any.
\<close>

record 'a world =
  pool :: "'a pool"
  threads :: "nat \<rightharpoonup> 'a worker"
  thread_counter :: nat
  STATS :: stats
  LOG :: "log_entry list"
  now :: real
  stop_call :: "stop_pc option"

subsection \<open>Dictionaries of workers\<close>

text \<open>\<^verbatim>\<open>d[key] = worker\<close> and \<^verbatim>\<open>d.pop(key, None)\<close> on a dictionary given by its keys.\<close>

definition dict_store :: "nat \<Rightarrow> nat list \<Rightarrow> nat list" where
  "dict_store k ks = (if k \<in> set ks then ks else ks @ [k])"

definition dict_pop :: "nat \<Rightarrow> nat list \<Rightarrow> nat list" where
  "dict_pop k ks = removeAll k ks"

section \<open>ThreadPool: observers, workers, Start\<close>

text \<open>\<^verbatim>\<open>__len__\<close>, \<^verbatim>\<open>pending_tasks\<close> and \<^verbatim>\<open>busy_threads\<close> (lines 280 to 290).\<close>

definition len :: "'a world \<Rightarrow> nat" where
  "len w = length (workers_ro_copy (pool w))"

definition pending_tasks :: "'a world \<Rightarrow> nat" where
  "pending_tasks w = qsize (queue (pool w))"

definition busy_threads :: "'a world \<Rightarrow> nat" where
  "busy_threads w =
     length (filter (\<lambda>k. case threads w k of Some x \<Rightarrow> \<not> idle x | None \<Rightarrow> False)
       (workers_ro_copy (pool w)))"

text \<open>
  \<^verbatim>\<open>CPUUsage\<close> (lines 413 to 418); the argument is what
  \<^verbatim>\<open>process.cpu_percent(0)\<close> would return.
\<close>

definition CPUUsage :: "'a pool \<Rightarrow> real \<Rightarrow> real" where
  "CPUUsage p cpu_percent = (if cpu_check p then cpu_percent else 0)"

text \<open>
  \<^verbatim>\<open>_WorkerThread.__init__\<close> (lines 83 to 91): the new thread object. Its name, made
  from the thread counter, is the key under which \<open>AddWorker\<close> stores it.
\<close>

definition WorkerThread_init :: "'a world \<Rightarrow> 'a worker" where
  "WorkerThread_init w = \<lparr>idle = True, started_time = now w, pc = NotStarted\<rparr>"

text \<open>
  \<^verbatim>\<open>_AddWorker\<close> (lines 301 to 306). \<open>start_result\<close> is what \<^verbatim>\<open>worker.start()\<close>
  does: \<open>None\<close> when the thread starts, \<open>Some e\<close> when it raises \<open>e\<close>, which
  \<^verbatim>\<open>_AddWorker\<close> does not catch.
\<close>

definition AddWorker :: "error option \<Rightarrow> 'a world \<Rightarrow> error option \<times> 'a world" where
  "AddWorker start_result w =
     (let k = thread_counter w;
          worker = WorkerThread_init w;
          w1 = w\<lparr>threads := (threads w)(k \<mapsto> worker), thread_counter := Suc k\<rparr>
      in case start_result of
           Some e \<Rightarrow> (Some e, w1)
         | None \<Rightarrow>
             (let ks = dict_store k (workers (pool w1))
              in (None, w1\<lparr>threads := (threads w1)(k \<mapsto> worker\<lparr>pc := LoopTop\<rparr>),
                            pool := (pool w1)\<lparr>workers := ks, workers_ro_copy := ks\<rparr>\<rparr>)))"

text \<open>\<^verbatim>\<open>_RemoveWorker\<close> (lines 309 to 311).\<close>

definition RemoveWorker :: "nat \<Rightarrow> 'a world \<Rightarrow> 'a world" where
  "RemoveWorker key w =
     (let ks = dict_pop key (workers (pool w))
      in w\<lparr>pool := (pool w)\<lparr>workers := ks, workers_ro_copy := ks\<rparr>\<rparr>)"

text \<open>
  \<^verbatim>\<open>Start\<close> (lines 293 to 298). \<open>spawn i\<close> is the result of starting the thread of
  the \<open>i\<close>-th pass through the loop; an exception of \<^verbatim>\<open>_AddWorker\<close> leaves the loop
  and \<^verbatim>\<open>Start\<close> at once.
\<close>

fun Start_loop :: "nat \<Rightarrow> (nat \<Rightarrow> error option) \<Rightarrow> nat \<Rightarrow> 'a world \<Rightarrow> error option \<times> 'a world" where
  "Start_loop 0 spawn i w = (None, w)"
| "Start_loop (Suc n) spawn i w =
     (case AddWorker (spawn i) w of
        (Some e, w') \<Rightarrow> (Some e, w')
      | (None, w') \<Rightarrow> Start_loop n spawn (Suc i) w')"

definition Start :: "(nat \<Rightarrow> error option) \<Rightarrow> 'a world \<Rightarrow> error option \<times> 'a world" where
  "Start spawn w =
     (if \<not> started (pool w)
      then Start_loop (min_threads (pool w)) spawn 0 (w\<lparr>pool := (pool w)\<lparr>started := True\<rparr>\<rparr>)
      else (None, w))"

section \<open>The worker: ProcessTask, _RemoveFromPool, run\<close>

text \<open>
  \<^verbatim>\<open>ProcessTask\<close> (lines 93 to 114). The result is the exception that leaves the
  method, if any: \<^verbatim>\<open>except Exception\<close> lets through what is not an instance of
  \<^verbatim>\<open>Exception\<close>, and then the working time is not recorded. The clock does not move
  within one step of the model.
\<close>

definition ProcessTask ::
  "('a \<Rightarrow> error option) \<Rightarrow> 'a \<Rightarrow> string \<Rightarrow> real \<Rightarrow> 'a world \<Rightarrow> error option \<times> 'a world" where
  "ProcessTask target args task_name queueing_time w =
     (let pool_name = name (pool w);
          w1 = (if pool_name \<noteq> []
                then w\<lparr>STATS := RecordEvent (pool_name @ ''_queueing_time'')
                                   (now w - queueing_time) (STATS w)\<rparr>
                else w);
          start_time = now w1;
          record_working = (\<lambda>v. if pool_name \<noteq> []
                then v\<lparr>STATS := RecordEvent (pool_name @ ''_working_time'')
                                   (now v - start_time) (STATS v)\<rparr>
                else v)
      in case target args of
           None \<Rightarrow> (None, record_working w1)
         | Some e \<Rightarrow>
             if is_Exception e
             then (let w2 = (if pool_name \<noteq> []
                             then w1\<lparr>STATS := IncrementCounter (pool_name @ ''_task_exceptions'')
                                                 (STATS w1)\<rparr>
                             else w1);
                       w3 = w2\<lparr>LOG := LOG w2 @
                              [(EXCEPTION, ''Caught exception in worker thread (%s): %s'',
                                [task_name, str e])]\<rparr>
                   in (None, record_working w3))
             else (Some e, w1))"

text \<open>\<^verbatim>\<open>_RemoveFromPool\<close> (lines 116 to 130).\<close>

definition RemoveFromPool :: "nat \<Rightarrow> 'a world \<Rightarrow> bool \<times> 'a world" where
  "RemoveFromPool k w =
     (if len w \<le> min_threads (pool w) then (False, w)
      else (True, RemoveWorker k w))"

definition set_worker :: "nat \<Rightarrow> 'a worker \<Rightarrow> 'a world \<Rightarrow> 'a world" where
  "set_worker k x w = w\<lparr>threads := (threads w)(k \<mapsto> x)\<rparr>"

text \<open>
  \<^verbatim>\<open>run\<close> (lines 132 to 169), one atomic step of worker \<open>k\<close> at a time; \<open>None\<close>
  when there is no such running thread. \<open>LoopTop\<close> is line 139, \<open>AtGet\<close> the
  \<^verbatim>\<open>get(timeout=60)\<close> of line 145 (on an empty queue the step is the timeout),
  \<open>Holding\<close> line 147, \<open>InTry\<close> lines 152 to 155, \<open>AtTaskDone\<close> the
  \<^verbatim>\<open>finally\<close> of line 157 with what follows it, \<open>AtEmpty\<close> line 160 and
  \<open>AtAgeCheck\<close> line 168. An exception that leaves \<^verbatim>\<open>run\<close> ends the thread.
\<close>

definition run_step :: "nat \<Rightarrow> 'a world \<Rightarrow> 'a world option" where
  "run_step k w =
     (case threads w k of
        None \<Rightarrow> None
      | Some x \<Rightarrow>
          (case pc x of
             NotStarted \<Rightarrow> None
           | Exited \<Rightarrow> None
           | LoopTop \<Rightarrow>
               Some (set_worker k
                 (x\<lparr>idle := (if name (pool w) \<noteq> [] then True else idle x), pc := AtGet\<rparr>) w)
           | AtGet \<Rightarrow>
               (case get (queue (pool w)) of
                  None \<Rightarrow> Some (set_worker k (x\<lparr>pc := AtEmpty\<rparr>) w)
                | Some (m, q) \<Rightarrow>
                    Some (set_worker k (x\<lparr>pc := Holding m\<rparr>) (w\<lparr>pool := (pool w)\<lparr>queue := q\<rparr>\<rparr>)))
           | Holding m \<Rightarrow>
               Some (set_worker k
                 (x\<lparr>idle := (if name (pool w) \<noteq> [] then False else idle x), pc := InTry m\<rparr>) w)
           | InTry m \<Rightarrow>
               (case m of
                  STOP_MESSAGE \<Rightarrow> Some (set_worker k (x\<lparr>pc := AtTaskDone ThenReturn\<rparr>) w)
                | Task (target, args, task_name, queueing_time) \<Rightarrow>
                    (case ProcessTask target args task_name queueing_time w of
                       (None, w') \<Rightarrow> Some (set_worker k (x\<lparr>pc := AtTaskDone ThenAgeCheck\<rparr>) w')
                     | (Some e, w') \<Rightarrow>
                         Some (set_worker k (x\<lparr>pc := AtTaskDone (ThenPropagate e)\<rparr>) w')))
           | AtTaskDone a \<Rightarrow>
               (case task_done (queue (pool w)) of
                  Inl e \<Rightarrow> Some (set_worker k (x\<lparr>pc := Exited\<rparr>) w)
                | Inr q \<Rightarrow>
                    Some (set_worker k
                      (x\<lparr>pc := (case a of ThenAgeCheck \<Rightarrow> AtAgeCheck | _ \<Rightarrow> Exited)\<rparr>)
                      (w\<lparr>pool := (pool w)\<lparr>queue := q\<rparr>\<rparr>)))
           | AtEmpty \<Rightarrow>
               (case RemoveFromPool k w of
                  (True, w') \<Rightarrow> Some (set_worker k (x\<lparr>pc := Exited\<rparr>) w')
                | (False, w') \<Rightarrow> Some (set_worker k (x\<lparr>pc := AtAgeCheck\<rparr>) w'))
           | AtAgeCheck \<Rightarrow>
               (if now w - started_time x > 600
                then (case RemoveFromPool k w of
                        (True, w') \<Rightarrow> Some (set_worker k (x\<lparr>pc := Exited\<rparr>) w')
                      | (False, w') \<Rightarrow> Some (set_worker k (x\<lparr>pc := LoopTop\<rparr>) w'))
                else Some (set_worker k (x\<lparr>pc := LoopTop\<rparr>) w))))"

section \<open>ThreadPool: AddTask and Stop\<close>

text \<open>
  How one pass through the admission loop of \<^verbatim>\<open>AddTask\<close> (lines 372 to 407) ends:
  \<^verbatim>\<open>return\<close>, \<^verbatim>\<open>continue\<close>, \<^verbatim>\<open>break\<close>, the blocking \<^verbatim>\<open>put\<close> of line 400, or
  an exception.
\<close>

datatype ctl = Return | Continue | Break | Block | Raise error

text \<open>
  Lines 373 to 407 up to the blocking \<^verbatim>\<open>put\<close>. \<open>cpu_percent\<close> and
  \<open>start_result\<close> are the CPU reading and the result of \<^verbatim>\<open>worker.start()\<close>, should
  the pass ask for them. \<open>blocking\<close> is the flag after line 369.
\<close>

definition AddTask_try ::
  "real \<Rightarrow> error option \<Rightarrow> ('a \<Rightarrow> error option) \<Rightarrow> 'a \<Rightarrow> string \<Rightarrow> bool \<Rightarrow> bool \<Rightarrow>
     'a world \<Rightarrow> ctl \<times> 'a world" where
  "AddTask_try cpu_percent start_result target args task_name blocking inline w =
     (case put_nowait (Task (target, args, task_name, now w)) (queue (pool w)) of
        Some q \<Rightarrow> (Return, w\<lparr>pool := (pool w)\<lparr>queue := q\<rparr>\<rparr>)
      | None \<Rightarrow>
          (let fall_through = (\<lambda>v. if inline then (Break, v)
                                    else if blocking then (Block, v)
                                    else (Raise Full, v))
           in if len w < max_threads (pool w) \<and> CPUUsage (pool w) cpu_percent < 90
              then (case AddWorker start_result w of
                      (None, w') \<Rightarrow> (Continue, w')
                    | (Some e, w') \<Rightarrow>
                        if e = RuntimeError \<or> e = ThreadError
                        then fall_through (w'\<lparr>LOG := LOG w' @
                               [(ERROR, ''Threadpool exception: Could not spawn worker threads.'',
                                 [])]\<rparr>)
                        else (Raise e, w'))
              else fall_through w))"

text \<open>
  Lines 399 to 404, the \<^verbatim>\<open>put(block=True, timeout=1)\<close>: it returns when the queue
  has room and ends in \<^verbatim>\<open>Queue.Full\<close>, hence \<^verbatim>\<open>continue\<close>, when it has none.
\<close>

definition AddTask_blocking_put ::
  "('a \<Rightarrow> error option) \<Rightarrow> 'a \<Rightarrow> string \<Rightarrow> 'a world \<Rightarrow> ctl \<times> 'a world" where
  "AddTask_blocking_put target args task_name w =
     (case put_nowait (Task (target, args, task_name, now w)) (queue (pool w)) of
        Some q \<Rightarrow> (Return, w\<lparr>pool := (pool w)\<lparr>queue := q\<rparr>\<rparr>)
      | None \<Rightarrow> (Continue, w))"

text \<open>
  What the rest of the process does during one pass of the loop. The caller holds the
  pool lock, so the workers can only take messages off the queue: \<open>taken_before\<close>
  since the last attempt, \<open>taken_while_blocked\<close> during the second of the blocking
  \<^verbatim>\<open>put\<close>; \<open>cpu_reading\<close> and \<open>thread_start\<close> are the CPU probe's answer and the
  fate of a new thread.
\<close>

record interference =
  taken_before :: nat
  cpu_reading :: real
  thread_start :: "error option"
  taken_while_blocked :: nat

definition workers_take :: "nat \<Rightarrow> 'a world \<Rightarrow> 'a world" where
  "workers_take n w =
     w\<lparr>pool := (pool w)\<lparr>queue := (queue (pool w))\<lparr>elements := drop n (elements (queue (pool w)))\<rparr>\<rparr>\<rparr>"

text \<open>
  The \<^verbatim>\<open>while True\<close> of line 372, one element of the schedule per pass. \<open>None\<close>: the
  loop is still running when the schedule ends.
\<close>

fun AddTask_loop ::
  "interference list \<Rightarrow> ('a \<Rightarrow> error option) \<Rightarrow> 'a \<Rightarrow> string \<Rightarrow> bool \<Rightarrow> bool \<Rightarrow>
     'a world \<Rightarrow> (ctl \<times> 'a world) option" where
  "AddTask_loop [] target args task_name blocking inline w = None"
| "AddTask_loop (i # sched) target args task_name blocking inline w =
     (case AddTask_try (cpu_reading i) (thread_start i) target args task_name blocking inline
             (workers_take (taken_before i) w) of
        (Continue, w') \<Rightarrow> AddTask_loop sched target args task_name blocking inline w'
      | (Block, w') \<Rightarrow>
          (case AddTask_blocking_put target args task_name
                  (workers_take (taken_while_blocked i) w') of
             (Continue, w'') \<Rightarrow> AddTask_loop sched target args task_name blocking inline w''
           | r \<Rightarrow> Some r)
      | r \<Rightarrow> Some r)"

text \<open>
  \<^verbatim>\<open>AddTask\<close> (lines 336 to 411). The result is what the caller sees, the exception
  raised if any, and whether the target ran on the caller's thread. An exception of a
  target that runs inline reaches the caller.
\<close>

definition AddTask ::
  "interference list \<Rightarrow> ('a \<Rightarrow> error option) \<Rightarrow> 'a \<Rightarrow> string \<Rightarrow> bool \<Rightarrow> bool \<Rightarrow>
     'a world \<Rightarrow> ((error option \<times> bool) \<times> 'a world) option" where
  "AddTask sched target args task_name blocking inline w =
     (if max_threads (pool w) = 0 then Some ((target args, True), w)
      else
        (let blocking = (if inline then False else blocking)
         in case AddTask_loop sched target args task_name blocking inline w of
              None \<Rightarrow> None
            | Some (Raise e, w') \<Rightarrow> Some ((Some e, False), w')
            | Some (Break, w') \<Rightarrow>
                (if inline then Some ((target args, True), w') else Some ((None, False), w'))
            | Some (c, w') \<Rightarrow> Some ((None, False), w')))"

text \<open>
  \<^verbatim>\<open>Stop\<close> (lines 314 to 334) blocks three times: in each \<^verbatim>\<open>put\<close> of a stop message,
  in \<^verbatim>\<open>Join\<close> and in \<^verbatim>\<open>worker.join()\<close>. \<open>Stop_enter\<close> is lines 316 to 323;
  \<open>Stop_step\<close> is the next step of the call under way, \<open>None\<close> while it has to wait.
\<close>

definition Stop_enter :: "'a world \<Rightarrow> 'a world" where
  "Stop_enter w =
     (if \<not> started (pool w)
      then w\<lparr>LOG := LOG w @ [(WARNING, ''Tried to stop a thread pool that was not running.'', [])]\<rparr>
      else w\<lparr>pool := (pool w)\<lparr>workers := [], workers_ro_copy := []\<rparr>,
             stop_call := Some (Pushing (workers (pool w)) (length (workers (pool w))))\<rparr>)"

definition has_exited :: "'a world \<Rightarrow> nat \<Rightarrow> bool" where
  "has_exited w k =
     (case threads w k of
        Some x \<Rightarrow> (case pc x of Exited \<Rightarrow> True | _ \<Rightarrow> False)
      | None \<Rightarrow> False)"

definition Stop_step :: "'a world \<Rightarrow> 'a world option" where
  "Stop_step w =
     (case stop_call w of
        None \<Rightarrow> None
      | Some (Pushing captured (Suc n)) \<Rightarrow>
          (case put_nowait STOP_MESSAGE (queue (pool w)) of
             None \<Rightarrow> None
           | Some q \<Rightarrow> Some (w\<lparr>pool := (pool w)\<lparr>queue := q\<rparr>,
                              stop_call := Some (Pushing captured n)\<rparr>))
      | Some (Pushing captured 0) \<Rightarrow>
          Some (w\<lparr>pool := (pool w)\<lparr>started := False\<rparr>, stop_call := Some (Joining captured)\<rparr>)
      | Some (Joining captured) \<Rightarrow>
          (if join_returns (queue (pool w))
           then Some (w\<lparr>stop_call := Some (JoiningWorkers captured)\<rparr>)
           else None)
      | Some (JoiningWorkers captured) \<Rightarrow>
          (if list_all (has_exited w) captured then Some (w\<lparr>stop_call := None\<rparr>) else None))"

section \<open>The pool and its workers as a transition system\<close>

text \<open>
  The atomic steps of the threads of a process around one pool. \<^verbatim>\<open>Start\<close>, a pass of
  the admission loop, the blocking \<^verbatim>\<open>put\<close> of \<^verbatim>\<open>AddTask\<close> and the steps of \<^verbatim>\<open>Stop\<close>
  run under the pool lock, which a call of \<^verbatim>\<open>Stop\<close> holds until it returns; the queue
  operations of the workers are atomic by the queue's own mutex. A step that cannot be
  taken in a state is \<open>None\<close>.
\<close>

datatype 'a event =
    Call_Start "nat \<Rightarrow> error option"
  | Call_Stop
  | Stop_continues
  | AddTask_pass real "error option" "'a \<Rightarrow> error option" 'a string bool bool
  | AddTask_blocked "'a \<Rightarrow> error option" 'a string
  | Worker_step nat
  | Tick real

fun step :: "'a event \<Rightarrow> 'a world \<Rightarrow> 'a world option" where
  "step (Call_Start spawn) w =
     (if stop_call w = None then Some (snd (Start spawn w)) else None)"
| "step Call_Stop w =
     (if stop_call w = None then Some (Stop_enter w) else None)"
| "step Stop_continues w = Stop_step w"
| "step (AddTask_pass cpu_percent start_result target args task_name blocking inline) w =
     (if stop_call w \<noteq> None then None
      else if max_threads (pool w) = 0 then Some w
      else Some (snd (AddTask_try cpu_percent start_result target args task_name
                        (if inline then False else blocking) inline w)))"
| "step (AddTask_blocked target args task_name) w =
     (if stop_call w \<noteq> None \<or> max_threads (pool w) = 0 then None
      else Some (snd (AddTask_blocking_put target args task_name w)))"
| "step (Worker_step k) w = run_step k w"
| "step (Tick d) w = (if 0 \<le> d then Some (w\<lparr>now := now w + d\<rparr>) else None)"

fun run :: "'a event list \<Rightarrow> 'a world \<Rightarrow> 'a world option" where
  "run [] w = Some w"
| "run (e # es) w = (case step e w of None \<Rightarrow> None | Some w' \<Rightarrow> run es w')"

section \<open>Construction and the registry of named pools\<close>

text \<open>
  \<^verbatim>\<open>ThreadPool.__init__\<close> (lines 239 to 274). It reads the class dictionary
  \<^verbatim>\<open>POOLS\<close>, here by the set of its keys, and registers six metrics for a named pool.
  \<open>max_threads = None\<close> is the default argument.
\<close>

definition init ::
  "string set \<Rightarrow> stats \<Rightarrow> string \<Rightarrow> nat \<Rightarrow> nat option \<Rightarrow> bool \<Rightarrow> error + ('a pool \<times> stats)" where
  "init pool_names st nm min_thr max_thr cpu =
     (let max_thr' = (case max_thr of
                        None \<Rightarrow> min_thr
                      | Some m \<Rightarrow> if m < min_thr then min_thr else m);
          p = \<lparr>name = nm, min_threads = min_thr, max_threads = max_thr', cpu_check = cpu,
               queue = Queue_init max_thr', started = False, workers = [],
               workers_ro_copy = []\<rparr>
      in if nm \<noteq> []
         then (if nm \<in> pool_names then Inl DuplicateThreadpoolError
               else Inr (p,
                 RegisterEventMetric (nm @ ''_queueing_time'')
                   (RegisterEventMetric (nm @ ''_working_time'')
                     (RegisterCounterMetric (nm @ ''_task_exceptions'')
                       (RegisterGaugeMetric (nm @ ''_cpu_use'')
                         (RegisterGaugeMetric (nm @ ''_threads'')
                           (RegisterGaugeMetric (nm @ ''_outstanding_tasks'') st)))))))
         else Inr (p, st))"

text \<open>The process around a pool that has just been constructed.\<close>

definition world_of :: "'a pool \<Rightarrow> stats \<Rightarrow> 'a world" where
  "world_of p st =
     \<lparr>pool = p, threads = Map.empty, thread_counter = 0, STATS = st, LOG = [], now = 0,
      stop_call = None\<rparr>"

text \<open>
  The class-level state: \<^verbatim>\<open>POOLS\<close> maps a name to a pool object, objects are
  references into a store, and \<^verbatim>\<open>stats.STATS\<close> is the metrics sink.
\<close>

record 'a process =
  POOLS :: "string \<rightharpoonup> nat"
  objects :: "nat \<rightharpoonup> 'a pool"
  next_object :: nat
  metrics :: stats

text \<open>
  Direct construction, \<^verbatim>\<open>ThreadPool(name, min_threads, max_threads, cpu_check)\<close>: the
  new object is not entered into \<^verbatim>\<open>POOLS\<close>.
\<close>

definition ThreadPool ::
  "'a process \<Rightarrow> string \<Rightarrow> nat \<Rightarrow> nat option \<Rightarrow> bool \<Rightarrow> error + (nat \<times> 'a process)" where
  "ThreadPool g nm min_thr max_thr cpu =
     (case init (dom (POOLS g)) (metrics g) nm min_thr max_thr cpu of
        Inl e \<Rightarrow> Inl e
      | Inr (p, st) \<Rightarrow>
          Inr (next_object g,
               g\<lparr>objects := (objects g)(next_object g \<mapsto> p),
                 next_object := Suc (next_object g), metrics := st\<rparr>))"

text \<open>\<^verbatim>\<open>ThreadPool.Factory\<close> (lines 196 to 220).\<close>

definition Factory ::
  "'a process \<Rightarrow> string \<Rightarrow> nat \<Rightarrow> nat option \<Rightarrow> bool \<Rightarrow> error + (nat \<times> 'a process)" where
  "Factory g nm min_thr max_thr cpu =
     (case POOLS g nm of
        Some r \<Rightarrow> Inr (r, g)
      | None \<Rightarrow>
          (case ThreadPool g nm min_thr max_thr cpu of
             Inl e \<Rightarrow> Inl e
           | Inr (r, g') \<Rightarrow> Inr (r, g'\<lparr>POOLS := (POOLS g')(nm \<mapsto> r)\<rparr>)))"

section \<open>BatchConverter\<close>

record converter =
  batch_size :: nat
  threadpool_prefix :: string
  threadpool_size :: nat

text \<open>\<^verbatim>\<open>itertools.islice(values, start_index, end_index)\<close>; \<open>None\<close> is no upper end.\<close>

definition islice :: "'v list \<Rightarrow> nat \<Rightarrow> nat option \<Rightarrow> 'v list" where
  "islice values start_index end_index =
     (case end_index of
        None \<Rightarrow> drop start_index values
      | Some e \<Rightarrow> take (e - start_index) (drop start_index values))"

text \<open>
  Modelled from the spec: \<^verbatim>\<open>utils.Grouper\<close> (\<^verbatim>\<open>grr_response_core.lib.utils\<close>) is not
  among the sources. The spec (section 4.4, step 4) has it group the values into
  batches of up to \<open>batch_size\<close>, the last batch possibly shorter.
\<close>

function Grouper :: "'v list \<Rightarrow> nat \<Rightarrow> 'v list list" where
  "Grouper xs n = (if n = 0 \<or> xs = [] then [] else take n xs # Grouper (drop n xs) n)"
  by pat_completeness auto
termination
  by (relation "measure (\<lambda>(xs, n). length xs)") auto

declare Grouper.simps [simp del]

text \<open>
  \<^verbatim>\<open>Convert\<close> is a client of the pool: what it does is the sequence of calls it makes
  on the pool. The call of \<^verbatim>\<open>AddTask\<close> carries the batch (the target is
  \<^verbatim>\<open>self.ConvertBatch\<close>, the arguments \<^verbatim>\<open>(batch,)\<close>), the index that makes the name
  \<^verbatim>\<open>batch_%d\<close>, and the flags \<open>blocking\<close> and \<open>inline\<close> that reach \<^verbatim>\<open>AddTask\<close>.
\<close>

datatype 'v pool_call =
    Factory_call string nat
  | Start_call
  | AddTask_call (batch: "'v list") (batch_index: nat) (blocking_flag: bool) (inline_flag: bool)
  | Stop_call

text \<open>What the pool answers: whether \<^verbatim>\<open>Start\<close> raises, and whether the \<open>i\<close>-th \<^verbatim>\<open>AddTask\<close> does.\<close>

record pool_responses =
  start_raises :: "error option"
  add_task_raises :: "nat \<Rightarrow> error option"

text \<open>The \<^verbatim>\<open>for\<close> loop of lines 523 to 532; an exception of \<^verbatim>\<open>AddTask\<close> ends it.\<close>

fun submit :: "(nat \<Rightarrow> error option) \<Rightarrow> nat \<Rightarrow> 'v list list \<Rightarrow> error option \<times> 'v pool_call list" where
  "submit raises i [] = (None, [])"
| "submit raises i (b # bs) =
     (case raises i of
        Some e \<Rightarrow> (Some e, [AddTask_call b i True False])
      | None \<Rightarrow>
          (case submit raises (Suc i) bs of
             (r, calls) \<Rightarrow> (r, AddTask_call b i True False # calls)))"

text \<open>
  \<^verbatim>\<open>Convert\<close> (lines 495 to 535): the exception it ends with, if any, and the calls
  made. \<^verbatim>\<open>len(values) // self.batch_size\<close> raises \<^verbatim>\<open>ZeroDivisionError\<close>, which the
  \<^verbatim>\<open>except TypeError\<close> does not catch; \<^verbatim>\<open>pool.Start()\<close> stands before the \<^verbatim>\<open>try\<close>.
\<close>

definition Convert ::
  "converter \<Rightarrow> pool_responses \<Rightarrow> 'v list \<Rightarrow> nat \<Rightarrow> nat option \<Rightarrow> error option \<times> 'v pool_call list" where
  "Convert c r values start_index end_index =
     (if values = [] then (None, [])
      else if batch_size c = 0 then (Some ZeroDivisionError, [])
      else
        (case start_raises r of
           Some e \<Rightarrow> (Some e, [Factory_call (threadpool_prefix c) (threadpool_size c), Start_call])
         | None \<Rightarrow>
             (case submit (add_task_raises r) 0
                     (Grouper (islice values start_index end_index) (batch_size c)) of
                (res, calls) \<Rightarrow>
                  (res, [Factory_call (threadpool_prefix c) (threadpool_size c), Start_call]
                        @ calls @ [Stop_call]))))"

section \<open>Example states\<close>

text \<open>Closed states on which the theorems below are instantiated.\<close>

definition empty_stats :: stats where
  "empty_stats = \<lparr>registered = [], counter = (\<lambda>n. 0), samples = (\<lambda>n. [])\<rparr>"

definition empty_process :: "nat process" where
  "empty_process = \<lparr>POOLS = Map.empty, objects = Map.empty, next_object = 0, metrics = empty_stats\<rparr>"

text \<open>The process after \<^verbatim>\<open>ThreadPool.Factory("q", 2)\<close>.\<close>

definition q_process :: "nat process" where
  "q_process =
     \<lparr>POOLS = [''q'' \<mapsto> 0],
      objects = [0 \<mapsto> \<lparr>name = ''q'', min_threads = 2, max_threads = 2, cpu_check = True,
                        queue = Queue_init 2, started = False, workers = [],
                        workers_ro_copy = []\<rparr>],
      next_object = 1,
      metrics = empty_stats\<lparr>registered :=
        [''q_outstanding_tasks'', ''q_threads'', ''q_cpu_use'', ''q_task_exceptions'',
         ''q_working_time'', ''q_queueing_time'']\<rparr>\<rparr>"

text \<open>The process after \<^verbatim>\<open>ThreadPool.Factory("", 1)\<close> on the empty process.\<close>

definition unnamed_process :: "nat process" where
  "unnamed_process =
     \<lparr>POOLS = [[] \<mapsto> 0],
      objects = [0 \<mapsto> \<lparr>name = [], min_threads = 1, max_threads = 1, cpu_check = True,
                        queue = Queue_init 1, started = False, workers = [],
                        workers_ro_copy = []\<rparr>],
      next_object = 1,
      metrics = empty_stats\<rparr>"

text \<open>
  The pool of \<^verbatim>\<open>ThreadPool("p", 2, 5, cpu_check=False)\<close>, and a process in which the
  second thread that is started cannot be created.
\<close>

definition p_pool :: "nat pool" where
  "p_pool = \<lparr>name = ''p'', min_threads = 2, max_threads = 5, cpu_check = False,
              queue = Queue_init 5, started = False, workers = [], workers_ro_copy = []\<rparr>"

definition second_start_fails :: "nat \<Rightarrow> error option" where
  "second_start_fails i = (if i = 1 then Some ThreadError else None)"

text \<open>
  A converter with batches of two and one with a batch size of 0; a pool on which no
  call raises, one on which the second call of \<^verbatim>\<open>AddTask\<close> raises, and one whose
  \<^verbatim>\<open>Start\<close> raises.
\<close>

definition pairs_converter :: converter where
  "pairs_converter = \<lparr>batch_size = 2, threadpool_prefix = ''batch_processor'', threadpool_size = 10\<rparr>"

definition no_failures :: pool_responses where
  "no_failures = \<lparr>start_raises = None, add_task_raises = (\<lambda>i. None)\<rparr>"

definition second_batch_fails :: pool_responses where
  "second_batch_fails =
     \<lparr>start_raises = None,
      add_task_raises = (\<lambda>i. if i = 1 then Some (Exception ''failed'') else None)\<rparr>"

definition start_fails :: pool_responses where
  "start_fails = \<lparr>start_raises = Some ThreadError, add_task_raises = (\<lambda>i. None)\<rparr>"

definition unbatched_converter :: converter where
  "unbatched_converter =
     \<lparr>batch_size = 0, threadpool_prefix = ''batch_processor'', threadpool_size = 10\<rparr>"

text \<open>
  A state is consistent when the read-only copy of the worker dictionary is up to date
  and the keys are those of threads that were created: every method that changes the
  dictionary refreshes the copy, and a new thread gets a new number.
\<close>

definition consistent :: "'a world \<Rightarrow> bool" where
  "consistent w \<longleftrightarrow>
     workers_ro_copy (pool w) = workers (pool w) \<and> distinct (workers (pool w))
     \<and> (\<forall>k \<in> set (workers (pool w)). k < thread_counter w)"

text \<open>
  The pool of \<^verbatim>\<open>ThreadPool("w", 1)\<close> with the metrics its construction registers, two
  targets that raise and one that returns, a quiet pass of the admission loop, and the
  state after \<^verbatim>\<open>Start\<close> and one admitted task that no worker has taken yet: one
  worker, a full queue.
\<close>

definition w_pool :: "nat pool" where
  "w_pool = \<lparr>name = ''w'', min_threads = 1, max_threads = 1, cpu_check = True,
              queue = Queue_init 1, started = False, workers = [], workers_ro_copy = []\<rparr>"

definition w_stats :: stats where
  "w_stats = empty_stats\<lparr>registered :=
     [''w_outstanding_tasks'', ''w_threads'', ''w_cpu_use'', ''w_task_exceptions'',
      ''w_working_time'', ''w_queueing_time'']\<rparr>"

definition succeeds :: "nat \<Rightarrow> error option" where
  "succeeds x = None"

definition fails :: "nat \<Rightarrow> error option" where
  "fails x = Some (Exception ''boom'')"

definition exits :: "nat \<Rightarrow> error option" where
  "exits x = Some (BaseException ''SystemExit'')"

definition all_start :: "nat \<Rightarrow> error option" where
  "all_start i = None"

definition quiet :: interference where
  "quiet = \<lparr>taken_before = 0, cpu_reading = 0, thread_start = None, taken_while_blocked = 0\<rparr>"

definition saturated_world :: "nat world" where
  "saturated_world =
     \<lparr>pool = \<lparr>name = ''w'', min_threads = 1, max_threads = 1, cpu_check = True,
              queue = \<lparr>maxsize = 1, elements = [Task (succeeds, 1, ''first'', 0)],
                       unfinished_tasks = 1\<rparr>,
              started = True, workers = [0], workers_ro_copy = [0]\<rparr>,
      threads = [0 \<mapsto> \<lparr>idle = True, started_time = 0, pc = LoopTop\<rparr>],
      thread_counter = 1, STATS = w_stats, LOG = [], now = 0, stop_call = None\<rparr>"

text \<open>
  Two relations between a state and a later one, used to describe what a step of a
  worker can do to the pool: it leaves the pool as it is but for its queue, or the
  worker has removed itself, which it does only above \<open>min_threads\<close>. The invariant
  \<open>live_bounds\<close> is the one of a pool that runs: started, not stopping, consistent,
  the number of live workers between the two bounds.
\<close>

definition same_or_retired :: "nat \<Rightarrow> 'a world \<Rightarrow> 'a world \<Rightarrow> bool" where
  "same_or_retired k w w' \<longleftrightarrow>
     thread_counter w' = thread_counter w \<and> stop_call w' = stop_call w
     \<and> (\<exists>q. pool w' = (pool w)\<lparr>queue := q\<rparr>
            \<or> (min_threads (pool w) < len w
                \<and> pool w' = (pool w)\<lparr>workers := dict_pop k (workers (pool w)),
                                       workers_ro_copy := dict_pop k (workers (pool w))\<rparr>))"

definition live_bounds :: "'a world \<Rightarrow> bool" where
  "live_bounds w \<longleftrightarrow>
     consistent w \<and> started (pool w) \<and> stop_call w = None
     \<and> min_threads (pool w) \<le> len w \<and> len w \<le> max_threads (pool w)"

text \<open>
  Six admissions on the pool \<open>p_pool\<close> (the sixth finds the queue of five full), and
  then the first worker taking a task, running it and retiring by age.
\<close>

definition six_tasks :: "nat event list" where
  "six_tasks = replicate 6 (AddTask_pass 0 None succeeds 1 ''t'' True False)"

definition first_worker_retires :: "nat event list" where
  "first_worker_retires = Tick 601 # replicate 6 (Worker_step 0)"

text \<open>
  A worker is executing when it holds a task and has entered the \<^verbatim>\<open>try\<close> of line 150.
  The pool of \<^verbatim>\<open>ThreadPool("", 1)\<close>, and a run in which its only worker takes a task
  and starts to execute it.
\<close>

definition executing :: "'a world \<Rightarrow> nat \<Rightarrow> bool" where
  "executing w k =
     (case threads w k of
        Some x \<Rightarrow> (case pc x of InTry (Task t) \<Rightarrow> True | _ \<Rightarrow> False)
      | None \<Rightarrow> False)"

definition unnamed_pool :: "nat pool" where
  "unnamed_pool = \<lparr>name = [], min_threads = 1, max_threads = 1, cpu_check = True,
                    queue = Queue_init 1, started = False, workers = [], workers_ro_copy = []\<rparr>"

definition worker_takes_task :: "nat event list" where
  "worker_takes_task =
     [Call_Start all_start, AddTask_pass 0 None succeeds 1 ''t'' True True,
      Worker_step 0, Worker_step 0, Worker_step 0]"

text \<open>The invariant of an unnamed pool: every thread object has its idle flag set.\<close>

definition all_idle :: "'a world \<Rightarrow> bool" where
  "all_idle w \<longleftrightarrow> name (pool w) = [] \<and> (\<forall>k x. threads w k = Some x \<longrightarrow> idle x)"

text \<open>
  The invariant of a pool with \<open>max_threads = 0\<close>: no worker, no thread object, an
  untouched queue, and a call of \<^verbatim>\<open>Stop\<close>, if one is under way, that captured nothing.
\<close>

definition without_workers :: "nat \<Rightarrow> 'a world \<Rightarrow> bool" where
  "without_workers n w \<longleftrightarrow>
     max_threads (pool w) = 0 \<and> min_threads (pool w) = 0
     \<and> workers (pool w) = [] \<and> workers_ro_copy (pool w) = []
     \<and> threads w = Map.empty \<and> thread_counter w = n
     \<and> queue (pool w) = Queue_init 0
     \<and> (case stop_call w of
           None \<Rightarrow> True
         | Some (Pushing captured m) \<Rightarrow> captured = [] \<and> m = 0
         | Some (Joining captured) \<Rightarrow> captured = []
         | Some (JoiningWorkers captured) \<Rightarrow> captured = [])"

text \<open>
  The pool of \<^verbatim>\<open>ThreadPool.Factory("batch_processor", 0)\<close>, which is what
  \<^verbatim>\<open>BatchConverter\<close> asks for with \<open>threadpool_size = 0\<close>, and its metrics.
\<close>

definition serial_pool :: "nat pool" where
  "serial_pool = \<lparr>name = ''batch_processor'', min_threads = 0, max_threads = 0, cpu_check = True,
                   queue = Queue_init 0, started = False, workers = [], workers_ro_copy = []\<rparr>"

definition serial_stats :: stats where
  "serial_stats = empty_stats\<lparr>registered :=
     [''batch_processor_outstanding_tasks'', ''batch_processor_threads'',
      ''batch_processor_cpu_use'', ''batch_processor_task_exceptions'',
      ''batch_processor_working_time'', ''batch_processor_queueing_time'']\<rparr>"

definition start_add_stop :: "nat event list" where
  "start_add_stop =
     [Call_Start all_start, AddTask_pass 0 None succeeds 1 ''t'' False False,
      Call_Stop, Stop_continues, Stop_continues, Stop_continues, Call_Start all_start]"

text \<open>
  The tasks on which the workers call \<^verbatim>\<open>ProcessTask\<close> in a run, in the order of the
  calls: a step of a worker that stands at line 155 with a task executes that task.
\<close>

definition executes :: "'a event \<Rightarrow> 'a world \<Rightarrow> 'a task list" where
  "executes e w =
     (case e of
        Worker_step k \<Rightarrow>
          (case threads w k of
             Some x \<Rightarrow> (case pc x of InTry (Task t) \<Rightarrow> [t] | _ \<Rightarrow> [])
           | None \<Rightarrow> [])
      | _ \<Rightarrow> [])"

fun executed :: "'a event list \<Rightarrow> 'a world \<Rightarrow> 'a task list" where
  "executed [] w = []"
| "executed (e # es) w =
     (case step e w of
        None \<Rightarrow> []
      | Some w' \<Rightarrow> executes e w @ executed es w')"

text \<open>
  A task raises when the call of its target does; the exception is one that
  \<^verbatim>\<open>except Exception\<close> catches when it is an instance of \<^verbatim>\<open>Exception\<close>. The log
  entry of line 109 for a task, and the entries of a log at the level of
  \<^verbatim>\<open>logging.exception\<close>.
\<close>

definition task_raises :: "'a task \<Rightarrow> bool" where
  "task_raises t = (case t of (target, args, task_name, queueing_time) \<Rightarrow>
     (case target args of None \<Rightarrow> False | Some e \<Rightarrow> True))"

definition returns_or_raises_Exception :: "'a task \<Rightarrow> bool" where
  "returns_or_raises_Exception t = (case t of (target, args, task_name, queueing_time) \<Rightarrow>
     (case target args of None \<Rightarrow> True | Some e \<Rightarrow> is_Exception e))"

definition caught_entry :: "'a task \<Rightarrow> log_entry" where
  "caught_entry t = (case t of (target, args, task_name, queueing_time) \<Rightarrow>
     (EXCEPTION, ''Caught exception in worker thread (%s): %s'',
      [task_name, case target args of None \<Rightarrow> [] | Some e \<Rightarrow> str e]))"

definition exception_entries :: "log_entry list \<Rightarrow> log_entry list" where
  "exception_entries l = filter (\<lambda>entry. fst entry = EXCEPTION) l"

text \<open>
  What a caller of \<^verbatim>\<open>AddTask\<close> and an observer of the metrics of pool \<open>nm\<close> see
  after the call: the exception, whether the target ran inline, the exception counter,
  the number of working-time samples and the log.
\<close>

definition observed ::
  "string \<Rightarrow> ((error option \<times> bool) \<times> 'a world) option \<Rightarrow>
     (error option \<times> bool \<times> nat \<times> nat \<times> log_entry list) option" where
  "observed nm r =
     map_option (\<lambda>((e, ran_inline), w).
        (e, ran_inline, counter (STATS w) (nm @ ''_task_exceptions''),
         length (samples (STATS w) (nm @ ''_working_time'')), LOG w)) r"

text \<open>
  Three tasks for the pool \<open>w_pool\<close>, the second of which raises, admitted one by
  one and each taken and run by the only worker before the next is admitted.
\<close>

definition worker_runs_one :: "(nat \<Rightarrow> error option) \<Rightarrow> string \<Rightarrow> nat event list" where
  "worker_runs_one target task_name =
     AddTask_pass 0 None target 1 task_name True True # replicate 6 (Worker_step 0)"

definition three_tasks_one_raises :: "nat event list" where
  "three_tasks_one_raises =
     Call_Start all_start # worker_runs_one succeeds ''a'' @ worker_runs_one fails ''b''
       @ worker_runs_one succeeds ''c''"

text \<open>
  How the metrics and the log of a later state relate to those of an earlier one when
  the workers have executed the tasks \<open>ts\<close> in between.
\<close>

definition metrics_after :: "'a world \<Rightarrow> 'a task list \<Rightarrow> 'a world \<Rightarrow> bool" where
  "metrics_after w ts w' \<longleftrightarrow>
     name (pool w') = name (pool w)
     \<and> exception_entries (LOG w') = exception_entries (LOG w) @ map caught_entry (filter task_raises ts)
     \<and> (name (pool w) \<noteq> [] \<longrightarrow>
           counter (STATS w') (name (pool w) @ ''_task_exceptions'')
             = counter (STATS w) (name (pool w) @ ''_task_exceptions'') + length (filter task_raises ts)
           \<and> length (samples (STATS w') (name (pool w) @ ''_working_time''))
             = length (samples (STATS w) (name (pool w) @ ''_working_time'')) + length ts)
     \<and> (name (pool w) = [] \<longrightarrow> STATS w' = STATS w)"

text \<open>
  A worker holds a message from the \<^verbatim>\<open>get\<close> of line 145 until the \<^verbatim>\<open>task_done\<close> of
  line 157; \<open>in_flight\<close> counts the workers that do. A state is accounted when the
  queue's counter of unfinished tasks is the number of messages in the queue plus the
  number of messages held by workers, which is what \<^verbatim>\<open>Queue.join\<close> relies on.
\<close>

definition holds_message :: "'a world \<Rightarrow> nat \<Rightarrow> bool" where
  "holds_message w k =
     (case threads w k of
        Some x \<Rightarrow> (case pc x of Holding m \<Rightarrow> True | InTry m \<Rightarrow> True
                    | AtTaskDone a \<Rightarrow> True | _ \<Rightarrow> False)
      | None \<Rightarrow> False)"

definition in_flight :: "'a world \<Rightarrow> nat" where
  "in_flight w = length (filter (holds_message w) [0 ..< thread_counter w])"

definition accounted :: "'a world \<Rightarrow> bool" where
  "accounted w \<longleftrightarrow>
     (\<forall>k x. threads w k = Some x \<longrightarrow> k < thread_counter w)
     \<and> unfinished_tasks (queue (pool w)) = qsize (queue (pool w)) + in_flight w"

text \<open>A worker that stands at the \<^verbatim>\<open>task_done\<close> of line 157 on its way out of \<^verbatim>\<open>run\<close>.\<close>

definition acknowledging_stop :: "'a world \<Rightarrow> nat \<Rightarrow> bool" where
  "acknowledging_stop w k =
     (case threads w k of
        Some x \<Rightarrow> (case pc x of AtTaskDone ThenReturn \<Rightarrow> True | _ \<Rightarrow> False)
      | None \<Rightarrow> False)"

text \<open>
  On the pool \<open>w_pool\<close>: \<^verbatim>\<open>Start\<close>, then \<^verbatim>\<open>Stop\<close> up to its stop message, which the
  worker takes and brings to the \<^verbatim>\<open>finally\<close> clause; the worker's next step; and the
  rest of \<^verbatim>\<open>Stop\<close>.
\<close>

definition worker_gets_stop :: "nat event list" where
  "worker_gets_stop =
     [Call_Start all_start, Call_Stop, Stop_continues,
      Worker_step 0, Worker_step 0, Worker_step 0, Worker_step 0]"

definition stop_returns :: "nat event list" where
  "stop_returns = [Stop_continues, Stop_continues, Stop_continues]"

text \<open>
  The invariant of a pool over its whole life. The dictionary and its copy agree, the
  bounds are ordered as the constructor leaves them, \<^verbatim>\<open>Stop\<close> has cleared the
  \<open>started\<close> flag by the time it waits in \<^verbatim>\<open>Join\<close>, and the number of live workers
  is between the bounds while the pool is started and no \<^verbatim>\<open>Stop\<close> is under way, and
  zero otherwise.
\<close>

definition lifecycle :: "'a world \<Rightarrow> bool" where
  "lifecycle w \<longleftrightarrow>
     consistent w \<and> min_threads (pool w) \<le> max_threads (pool w)
     \<and> (case stop_call w of
           Some (Joining captured) \<Rightarrow> \<not> started (pool w)
         | Some (JoiningWorkers captured) \<Rightarrow> \<not> started (pool w)
         | _ \<Rightarrow> True)
     \<and> (if started (pool w) \<and> stop_call w = None
         then min_threads (pool w) \<le> len w \<and> len w \<le> max_threads (pool w)
         else len w = 0)"

text \<open>
  A run is orderly when every call of \<^verbatim>\<open>Start\<close> in it returns, having started all
  its threads, and every pass of \<^verbatim>\<open>AddTask\<close> finds the pool started.
\<close>

definition admitted :: "'a event \<Rightarrow> 'a world \<Rightarrow> bool" where
  "admitted e w =
     (case e of
        Call_Start spawn \<Rightarrow> (case fst (Start spawn w) of None \<Rightarrow> True | Some err \<Rightarrow> False)
      | AddTask_pass cpu_percent start_result target args task_name blocking inline \<Rightarrow>
          started (pool w)
      | AddTask_blocked target args task_name \<Rightarrow> started (pool w)
      | _ \<Rightarrow> True)"

fun orderly :: "'a event list \<Rightarrow> 'a world \<Rightarrow> bool" where
  "orderly [] w = True"
| "orderly (e # es) w =
     (admitted e w \<and> (case step e w of None \<Rightarrow> True | Some w' \<Rightarrow> orderly es w'))"

text \<open>
  Runs on the pools \<open>w_pool\<close> and \<open>p_pool\<close>: two tasks added before
  \<^verbatim>\<open>Start\<close>; \<^verbatim>\<open>Start\<close>, growth by one worker and the retirement of another; and
  \<^verbatim>\<open>Start\<close> followed by a complete \<^verbatim>\<open>Stop\<close>.
\<close>

definition add_before_start :: "nat event list" where
  "add_before_start =
     [AddTask_pass 0 None succeeds 1 ''a'' False False,
      AddTask_pass 0 None succeeds 2 ''b'' False False,
      Call_Start all_start]"

definition p_stats :: stats where
  "p_stats = empty_stats\<lparr>registered :=
     [''p_outstanding_tasks'', ''p_threads'', ''p_cpu_use'', ''p_task_exceptions'',
      ''p_working_time'', ''p_queueing_time'']\<rparr>"

definition grow_and_retire :: "nat event list" where
  "grow_and_retire = Call_Start all_start # six_tasks @ first_worker_retires"

definition start_and_stop :: "nat event list" where
  "start_and_stop = worker_gets_stop @ Worker_step 0 # stop_returns"

section \<open>Properties\<close>

subsection \<open>The registry\<close>

lemma init_not_registered:
  "nm = [] \<or> nm \<notin> pool_names \<Longrightarrow> \<exists>p st. init pool_names s nm a b c = Inr (p, st)"
  by (cases "nm = []") (simp_all add: init_def Let_def)

lemma init_duplicate:
  "nm \<noteq> [] \<Longrightarrow> nm \<in> pool_names \<Longrightarrow> init pool_names s nm a b c = Inl DuplicateThreadpoolError"
  by (simp add: init_def Let_def)

text \<open>
  C6. \<^verbatim>\<open>Factory\<close> returns the pool registered under the name when there is one,
  whatever the numeric arguments, and leaves the process as it is; otherwise it
  constructs a pool, stores it under the name and returns it. \<^verbatim>\<open>Factory\<close> never
  raises; direct construction raises, and then \<open>DuplicateThreadpoolError\<close>, exactly
  for a non-empty name that is a key of the registry.
\<close>

theorem Factory_registry:
  fixes g :: "'a process"
  shows "(\<forall>r. POOLS g nm = Some r \<longrightarrow> Factory g nm min_thr max_thr cpu = Inr (r, g))
   \<and> (POOLS g nm = None \<longrightarrow>
        (\<exists>p st. init (dom (POOLS g)) (metrics g) nm min_thr max_thr cpu = Inr (p, st)
           \<and> Factory g nm min_thr max_thr cpu =
               Inr (next_object g,
                    g\<lparr>objects := (objects g)(next_object g \<mapsto> p),
                      next_object := Suc (next_object g), metrics := st,
                      POOLS := (POOLS g)(nm \<mapsto> next_object g)\<rparr>)))
   \<and> (\<forall>e. Factory g nm min_thr max_thr cpu \<noteq> Inl e)
   \<and> (\<forall>e. ThreadPool g nm min_thr max_thr cpu = Inl e \<longleftrightarrow>
          e = DuplicateThreadpoolError \<and> nm \<noteq> [] \<and> nm \<in> dom (POOLS g))"
proof (intro conjI allI impI)
  fix r assume "POOLS g nm = Some r"
  then show "Factory g nm min_thr max_thr cpu = Inr (r, g)"
    by (simp add: Factory_def)
next
  assume none: "POOLS g nm = None"
  then have "nm = [] \<or> nm \<notin> dom (POOLS g)" by (simp add: domIff)
  then obtain p :: "'a pool" and st where i: "init (dom (POOLS g)) (metrics g) nm min_thr max_thr cpu = Inr (p, st)"
    using init_not_registered [of nm "dom (POOLS g)"] by blast
  with none show "\<exists>p st. init (dom (POOLS g)) (metrics g) nm min_thr max_thr cpu = Inr (p, st)
           \<and> Factory g nm min_thr max_thr cpu =
               Inr (next_object g,
                    g\<lparr>objects := (objects g)(next_object g \<mapsto> p),
                      next_object := Suc (next_object g), metrics := st,
                      POOLS := (POOLS g)(nm \<mapsto> next_object g)\<rparr>)"
    by (simp add: Factory_def ThreadPool_def)
next
  fix e
  show "Factory g nm min_thr max_thr cpu \<noteq> Inl e"
  proof (cases "POOLS g nm")
    case None
    then have "nm = [] \<or> nm \<notin> dom (POOLS g)" by (simp add: domIff)
    then obtain p :: "'a pool" and st where "init (dom (POOLS g)) (metrics g) nm min_thr max_thr cpu = Inr (p, st)"
      using init_not_registered [of nm "dom (POOLS g)"] by blast
    with None show ?thesis by (simp add: Factory_def ThreadPool_def)
  next
    case (Some r)
    then show ?thesis by (simp add: Factory_def)
  qed
next
  fix e
  show "ThreadPool g nm min_thr max_thr cpu = Inl e \<longleftrightarrow>
          e = DuplicateThreadpoolError \<and> nm \<noteq> [] \<and> nm \<in> dom (POOLS g)"
  proof (cases "nm \<noteq> [] \<and> nm \<in> dom (POOLS g)")
    case True
    then have "(init (dom (POOLS g)) (metrics g) nm min_thr max_thr cpu :: error + ('a pool \<times> stats))
        = Inl DuplicateThreadpoolError"
      by (simp add: init_duplicate)
    with True show ?thesis by (auto simp add: ThreadPool_def)
  next
    case False
    then obtain p :: "'a pool" and st where "init (dom (POOLS g)) (metrics g) nm min_thr max_thr cpu = Inr (p, st)"
      using init_not_registered [of nm "dom (POOLS g)"] by blast
    with False show ?thesis by (auto simp add: ThreadPool_def)
  qed
qed

lemma Factory_first: "Factory empty_process ''q'' 2 None True = Inr (0, q_process)"
  by (simp add: Factory_def ThreadPool_def init_def Let_def empty_process_def q_process_def
      RegisterGaugeMetric_def RegisterCounterMetric_def RegisterEventMetric_def empty_stats_def)

theorem Factory_registry_witness:
  "POOLS empty_process ''q'' = None
   \<and> Factory empty_process ''q'' 2 None True = Inr (0, q_process)
   \<and> POOLS q_process ''q'' = Some 0
   \<and> Factory q_process ''q'' 7 (Some 9) False = Inr (0, q_process)
   \<and> ThreadPool q_process ''q'' 7 (Some 9) False = Inl DuplicateThreadpoolError"
proof -
  have n: "POOLS empty_process ''q'' = None" by (simp add: empty_process_def)
  have s: "POOLS q_process ''q'' = Some 0" by (simp add: q_process_def)
  have d: "''q'' \<in> dom (POOLS q_process)" by (simp add: q_process_def)
  from Factory_registry [of q_process "''q''" 7 "Some 9" False] s d
  have "Factory q_process ''q'' 7 (Some 9) False = Inr (0, q_process)"
    and "ThreadPool q_process ''q'' 7 (Some 9) False = Inl DuplicateThreadpoolError"
    by simp_all
  with n s Factory_first show ?thesis by simp
qed

lemma init_unnamed:
  "init pool_names st [] min_thr max_thr cpu =
     Inr (\<lparr>name = [], min_threads = min_thr,
           max_threads = (case max_thr of None \<Rightarrow> min_thr | Some m \<Rightarrow> if m < min_thr then min_thr else m),
           cpu_check = cpu,
           queue = Queue_init (case max_thr of None \<Rightarrow> min_thr | Some m \<Rightarrow> if m < min_thr then min_thr else m),
           started = False, workers = [], workers_ro_copy = []\<rparr>, st)"
  by (simp add: init_def Let_def)

text \<open>
  C7, as stated, fails: \<^verbatim>\<open>Factory\<close> on the empty name reads the registry, creates
  the entry for the empty name and reuses it at the next call.
\<close>

theorem Factory_registers_unnamed_pool:
  "POOLS empty_process [] = None
   \<and> Factory empty_process [] 1 None True = Inr (0, unnamed_process)
   \<and> POOLS unnamed_process [] = Some 0
   \<and> Factory unnamed_process [] 4 (Some 8) False = Inr (0, unnamed_process)"
  by (simp add: Factory_def ThreadPool_def init_unnamed empty_process_def unnamed_process_def)

text \<open>
  C7, amended. Direct construction of a pool with the empty name does not depend on
  the registry, never fails, registers no metric and leaves the registry as it is.
  \<^verbatim>\<open>Factory\<close> treats the empty name as it treats any key: the first call stores the
  new pool under it, and a later call returns the stored pool.
\<close>

theorem unnamed_construction_bypasses_registry:
  fixes g :: "'a process"
  shows "(init pool_names st [] min_thr max_thr cpu :: error + ('a pool \<times> stats))
           = init {} st [] min_thr max_thr cpu
   \<and> (\<exists>p :: 'a pool. init pool_names st [] min_thr max_thr cpu = Inr (p, st) \<and> name p = [])
   \<and> (\<exists>g'. ThreadPool g [] min_thr max_thr cpu = Inr (next_object g, g')
          \<and> POOLS g' = POOLS g \<and> metrics g' = metrics g)
   \<and> (POOLS g [] = None \<longrightarrow>
         (\<exists>g'. Factory g [] min_thr max_thr cpu = Inr (next_object g, g')
            \<and> POOLS g' = (POOLS g)([] \<mapsto> next_object g)))
   \<and> (\<forall>r. POOLS g [] = Some r \<longrightarrow> Factory g [] min_thr max_thr cpu = Inr (r, g))"
proof (intro conjI)
  show "(init pool_names st [] min_thr max_thr cpu :: error + ('a pool \<times> stats))
           = init {} st [] min_thr max_thr cpu"
    by (simp add: init_unnamed)
  show "\<exists>p :: 'a pool. init pool_names st [] min_thr max_thr cpu = Inr (p, st) \<and> name p = []"
    by (simp add: init_unnamed)
  show "\<exists>g'. ThreadPool g [] min_thr max_thr cpu = Inr (next_object g, g')
          \<and> POOLS g' = POOLS g \<and> metrics g' = metrics g"
    by (simp add: ThreadPool_def init_unnamed)
  show "POOLS g [] = None \<longrightarrow>
         (\<exists>g'. Factory g [] min_thr max_thr cpu = Inr (next_object g, g')
            \<and> POOLS g' = (POOLS g)([] \<mapsto> next_object g))"
    by (simp add: Factory_def ThreadPool_def init_unnamed)
  show "\<forall>r. POOLS g [] = Some r \<longrightarrow> Factory g [] min_thr max_thr cpu = Inr (r, g)"
    by (simp add: Factory_def)
qed

theorem unnamed_construction_bypasses_registry_witness:
  "POOLS empty_process [] = None
   \<and> (\<exists>g'. Factory empty_process [] 1 None True = Inr (0, g') \<and> POOLS g' = [[] \<mapsto> 0])
   \<and> POOLS unnamed_process [] = Some 0
   \<and> Factory unnamed_process [] 4 (Some 8) False = Inr (0, unnamed_process)
   \<and> (\<exists>g'. ThreadPool q_process [] 1 None True = Inr (1, g') \<and> POOLS g' = POOLS q_process
         \<and> metrics g' = metrics q_process)"
proof -
  have n: "POOLS empty_process [] = None" and z: "next_object empty_process = 0"
    and e: "POOLS empty_process = Map.empty"
    by (simp_all add: empty_process_def)
  have s: "POOLS unnamed_process [] = Some 0" by (simp add: unnamed_process_def)
  have o: "next_object q_process = 1" by (simp add: q_process_def)
  from unnamed_construction_bypasses_registry [of _ _ 1 None True empty_process] n z e
  have a: "\<exists>g'. Factory empty_process [] 1 None True = Inr (0, g') \<and> POOLS g' = [[] \<mapsto> 0]"
    by simp
  from unnamed_construction_bypasses_registry [of _ _ 4 "Some 8" False unnamed_process] s
  have b: "Factory unnamed_process [] 4 (Some 8) False = Inr (0, unnamed_process)"
    by simp
  from unnamed_construction_bypasses_registry [of _ _ 1 None True q_process] o
  have c: "\<exists>g'. ThreadPool q_process [] 1 None True = Inr (1, g') \<and> POOLS g' = POOLS q_process
         \<and> metrics g' = metrics q_process"
    by simp
  from n a s b c show ?thesis by blast
qed

subsection \<open>Start\<close>

lemma p_pool_init: "\<exists>st. init {} empty_stats ''p'' 2 (Some 5) False = Inr (p_pool, st)"
  by (simp add: init_def p_pool_def Let_def)

text \<open>
  C5 asks \<^verbatim>\<open>Start\<close> to log and go on with the workers that did start, and to raise
  only when none could be created. The code differs: with \<open>min_threads = 2\<close> and a
  second thread that fails to start, \<^verbatim>\<open>Start\<close> raises the thread error although one
  worker runs, and writes no log entry.
\<close>

theorem Start_raises_after_partial_spawn:
  "fst (Start second_start_fails (world_of p_pool empty_stats)) = Some ThreadError
   \<and> len (snd (Start second_start_fails (world_of p_pool empty_stats))) = 1
   \<and> started (pool (snd (Start second_start_fails (world_of p_pool empty_stats))))
   \<and> LOG (snd (Start second_start_fails (world_of p_pool empty_stats))) = []"
  by (simp add: Start_def world_of_def p_pool_def second_start_fails_def AddWorker_def
      WorkerThread_init_def dict_store_def len_def Let_def numeral_2_eq_2)

subsection \<open>BatchConverter.Convert\<close>

lemma Grouper_Nil: "Grouper [] n = []"
  by (simp add: Grouper.simps)

lemma Grouper_step: "0 < n \<Longrightarrow> xs \<noteq> [] \<Longrightarrow> Grouper xs n = take n xs # Grouper (drop n xs) n"
  by (simp add: Grouper.simps [of xs n])

lemma Grouper_concat: "0 < n \<Longrightarrow> concat (Grouper xs n) = xs"
proof (induction xs n rule: Grouper.induct)
  case (1 xs n)
  show ?case
  proof (cases "xs = []")
    case True
    then show ?thesis by (simp add: Grouper_Nil)
  next
    case False
    with "1.prems" "1.IH" have "concat (Grouper (drop n xs) n) = drop n xs" by simp
    with False "1.prems" show ?thesis by (simp add: Grouper_step)
  qed
qed

lemma Grouper_batches: "0 < n \<Longrightarrow> b \<in> set (Grouper xs n) \<Longrightarrow> b \<noteq> [] \<and> length b \<le> n"
proof (induction xs n rule: Grouper.induct)
  case (1 xs n)
  show ?case
  proof (cases "xs = []")
    case True
    with "1.prems" show ?thesis by (simp add: Grouper_Nil)
  next
    case False
    with "1.prems" have "b = take n xs \<or> b \<in> set (Grouper (drop n xs) n)"
      by (simp add: Grouper_step)
    then show ?thesis
    proof
      assume "b = take n xs"
      with False "1.prems" show ?thesis by simp
    next
      assume "b \<in> set (Grouper (drop n xs) n)"
      with False "1.prems" "1.IH" show ?thesis by simp
    qed
  qed
qed

lemma Grouper_full_batches:
  "0 < n \<Longrightarrow> Suc j < length (Grouper xs n) \<Longrightarrow> length (Grouper xs n ! j) = n"
proof (induction xs n arbitrary: j rule: Grouper.induct)
  case (1 xs n)
  show ?case
  proof (cases "xs = []")
    case True
    with "1.prems" show ?thesis by (simp add: Grouper_Nil)
  next
    case False
    with "1.prems" have eq: "Grouper xs n = take n xs # Grouper (drop n xs) n"
      by (simp add: Grouper_step)
    show ?thesis
    proof (cases j)
      case 0
      with "1.prems" eq have "Grouper (drop n xs) n \<noteq> []" by auto
      then have "drop n xs \<noteq> []" by (auto simp add: Grouper_Nil)
      then have "n < length xs" by simp
      with 0 eq show ?thesis by simp
    next
      case (Suc i)
      with "1.prems" eq have "Suc i < length (Grouper (drop n xs) n)" by simp
      with False "1.prems" "1.IH" have "length (Grouper (drop n xs) n ! i) = n" by simp
      with Suc eq show ?thesis by simp
    qed
  qed
qed

lemma submit_calls:
  "submit raises i bs = (res, calls) \<Longrightarrow>
     map batch calls = take (length calls) bs
     \<and> (\<forall>call \<in> set calls. \<exists>b k. call = AddTask_call b k True False)
     \<and> (\<forall>j < length calls. batch_index (calls ! j) = i + j)
     \<and> (res = None \<longrightarrow> length calls = length bs \<and> (\<forall>j < length bs. raises (i + j) = None))
     \<and> (\<forall>e. res = Some e \<longrightarrow> calls \<noteq> [] \<and> raises (i + (length calls - 1)) = Some e)"
proof (induction bs arbitrary: i res calls)
  case Nil
  then show ?case by simp
next
  case (Cons b bs)
  show ?case
  proof (cases "raises i")
    case (Some e)
    with Cons.prems show ?thesis by auto
  next
    case None
    obtain r cs where s: "submit raises (Suc i) bs = (r, cs)" by (cases "submit raises (Suc i) bs")
    with None Cons.prems have res: "res = r" and calls: "calls = AddTask_call b i True False # cs"
      by simp_all
    from Cons.IH [OF s] have ih1: "map batch cs = take (length cs) bs"
      and ih2: "\<forall>call \<in> set cs. \<exists>b k. call = AddTask_call b k True False"
      and ih3: "\<forall>j < length cs. batch_index (cs ! j) = Suc i + j"
      and ih4: "r = None \<longrightarrow> length cs = length bs \<and> (\<forall>j < length bs. raises (Suc i + j) = None)"
      and ih5: "\<forall>e. r = Some e \<longrightarrow> cs \<noteq> [] \<and> raises (Suc i + (length cs - 1)) = Some e"
      by blast+
    have c1: "map batch calls = take (length calls) (b # bs)" using ih1 calls by simp
    have c2: "\<forall>call \<in> set calls. \<exists>b k. call = AddTask_call b k True False"
      using ih2 calls by simp
    have c3: "\<forall>j < length calls. batch_index (calls ! j) = i + j"
    proof (intro allI impI)
      fix j assume "j < length calls"
      then show "batch_index (calls ! j) = i + j"
        using ih3 calls by (cases j) simp_all
    qed
    have c4: "res = None \<longrightarrow> length calls = length (b # bs) \<and> (\<forall>j < length (b # bs). raises (i + j) = None)"
    proof
      assume "res = None"
      with res ih4 have l: "length cs = length bs" and a: "\<forall>j < length bs. raises (Suc i + j) = None"
        by simp_all
      have "\<forall>j < length (b # bs). raises (i + j) = None"
      proof (intro allI impI)
        fix j assume "j < length (b # bs)"
        then show "raises (i + j) = None" using a None by (cases j) simp_all
      qed
      with l calls show "length calls = length (b # bs) \<and> (\<forall>j < length (b # bs). raises (i + j) = None)"
        by simp
    qed
    have c5: "\<forall>e. res = Some e \<longrightarrow> calls \<noteq> [] \<and> raises (i + (length calls - 1)) = Some e"
    proof (intro allI impI)
      fix e assume "res = Some e"
      with res ih5 have n: "cs \<noteq> []" and r: "raises (Suc i + (length cs - 1)) = Some e" by blast+
      from n have "Suc i + (length cs - 1) = i + (length calls - 1)" using calls
        by (cases cs) simp_all
      from r [unfolded this] have "raises (i + (length calls - 1)) = Some e" .
      with calls show "calls \<noteq> [] \<and> raises (i + (length calls - 1)) = Some e" by simp
    qed
    from c1 c2 c3 c4 c5 show ?thesis by blast
  qed
qed

lemma islice_nth:
  "islice values s e =
     map (nth values) [s ..< min (case e of None \<Rightarrow> length values | Some n \<Rightarrow> n) (length values)]"
proof (cases e)
  case None
  have "drop s values = map (nth values) [s ..< length values]"
    by (rule nth_equalityI) simp_all
  with None show ?thesis by (simp add: islice_def)
next
  case (Some n)
  have "take (n - s) (drop s values) = map (nth values) [s ..< min n (length values)]"
  proof (rule nth_equalityI)
    show "length (take (n - s) (drop s values)) = length (map (nth values) [s ..< min n (length values)])"
      by simp
  next
    fix i assume "i < length (take (n - s) (drop s values))"
    then have i: "i < n - s" and j: "s + i < length values" by auto
    then have "take (n - s) (drop s values) ! i = values ! (s + i)" by simp
    moreover from i j have "map (nth values) [s ..< min n (length values)] ! i = values ! (s + i)"
      by (simp add: nth_map_upt)
    ultimately show "take (n - s) (drop s values) ! i = map (nth values) [s ..< min n (length values)] ! i"
      by simp
  qed
  with Some show ?thesis by (simp add: islice_def)
qed

text \<open>
  What \<^verbatim>\<open>Convert\<close> does once \<^verbatim>\<open>Start\<close> has returned, for a positive batch size:
  the \<^verbatim>\<open>try\<close> of line 522 with its \<^verbatim>\<open>finally\<close>.
\<close>

lemma Convert_after_Start:
  assumes "values \<noteq> []" and "0 < batch_size c" and "start_raises r = None"
  shows "\<exists>res calls.
      Convert c r values start_index end_index =
        (res, [Factory_call (threadpool_prefix c) (threadpool_size c), Start_call]
              @ calls @ [Stop_call])
      \<and> map batch calls =
           take (length calls) (Grouper (islice values start_index end_index) (batch_size c))
      \<and> (\<forall>call \<in> set calls. \<exists>b k. call = AddTask_call b k True False)
      \<and> (\<forall>call \<in> set calls. batch call \<noteq> [] \<and> length (batch call) \<le> batch_size c)
      \<and> (\<forall>j < length calls. batch_index (calls ! j) = j)
      \<and> (\<forall>j. Suc j < length calls \<longrightarrow> length (batch (calls ! j)) = batch_size c)
      \<and> (res = None \<longleftrightarrow>
            (\<forall>j < length (Grouper (islice values start_index end_index) (batch_size c)).
               add_task_raises r j = None))
      \<and> (res = None \<longrightarrow>
            concat (map batch calls) = islice values start_index end_index
            \<and> islice values start_index end_index =
                map (nth values)
                  [start_index ..<
                     min (case end_index of None \<Rightarrow> length values | Some n \<Rightarrow> n) (length values)])
      \<and> (\<forall>e. res = Some e \<longrightarrow> calls \<noteq> [] \<and> add_task_raises r (length calls - 1) = Some e)"
proof -
  let ?bs = "Grouper (islice values start_index end_index) (batch_size c)"
  obtain res calls where s: "submit (add_task_raises r) 0 ?bs = (res, calls)"
    by (cases "submit (add_task_raises r) 0 ?bs")
  from submit_calls [OF s]
  have m: "map batch calls = take (length calls) ?bs"
    and f: "\<forall>call \<in> set calls. \<exists>b k. call = AddTask_call b k True False"
    and i: "\<forall>j < length calls. batch_index (calls ! j) = j"
    and n: "res = None \<longrightarrow> length calls = length ?bs \<and> (\<forall>j < length ?bs. add_task_raises r j = None)"
    and e: "\<forall>e. res = Some e \<longrightarrow> calls \<noteq> [] \<and> add_task_raises r (length calls - 1) = Some e"
    by simp_all
  from assms s have c: "Convert c r values start_index end_index =
        (res, [Factory_call (threadpool_prefix c) (threadpool_size c), Start_call]
              @ calls @ [Stop_call])"
    by (simp add: Convert_def)
  from m have "length (map batch calls) = length (take (length calls) ?bs)" by simp
  then have len: "length calls \<le> length ?bs" by simp
  have b: "\<forall>call \<in> set calls. batch call \<noteq> [] \<and> length (batch call) \<le> batch_size c"
  proof
    fix call assume "call \<in> set calls"
    then have "batch call \<in> set (map batch calls)" by simp
    with m have "batch call \<in> set (take (length calls) ?bs)" by simp
    then have "batch call \<in> set ?bs" by (rule in_set_takeD)
    with assms(2) show "batch call \<noteq> [] \<and> length (batch call) \<le> batch_size c"
      by (simp add: Grouper_batches)
  qed
  have full: "\<forall>j. Suc j < length calls \<longrightarrow> length (batch (calls ! j)) = batch_size c"
  proof (intro allI impI)
    fix j assume j: "Suc j < length calls"
    then have "batch (calls ! j) = map batch calls ! j" by simp
    also have "\<dots> = ?bs ! j" using m j by simp
    finally have "batch (calls ! j) = ?bs ! j" .
    moreover from j len have "Suc j < length ?bs" by simp
    ultimately show "length (batch (calls ! j)) = batch_size c"
      using assms(2) by (simp add: Grouper_full_batches)
  qed
  have iff: "res = None \<longleftrightarrow> (\<forall>j < length ?bs. add_task_raises r j = None)"
  proof
    assume "res = None" with n show "\<forall>j < length ?bs. add_task_raises r j = None" by simp
  next
    assume a: "\<forall>j < length ?bs. add_task_raises r j = None"
    show "res = None"
    proof (cases res)
      case None then show ?thesis .
    next
      case (Some x)
      with e have "calls \<noteq> []" and "add_task_raises r (length calls - 1) = Some x" by simp_all
      moreover from \<open>calls \<noteq> []\<close> len have "length calls - 1 < length ?bs"
        by (cases calls) simp_all
      ultimately show ?thesis using a by simp
    qed
  qed
  have all: "res = None \<longrightarrow>
            concat (map batch calls) = islice values start_index end_index
            \<and> islice values start_index end_index =
                map (nth values)
                  [start_index ..<
                     min (case end_index of None \<Rightarrow> length values | Some n \<Rightarrow> n) (length values)]"
  proof
    assume "res = None"
    with n m have "map batch calls = ?bs" by simp
    with assms(2) have "concat (map batch calls) = islice values start_index end_index"
      by (simp add: Grouper_concat)
    then show "concat (map batch calls) = islice values start_index end_index
            \<and> islice values start_index end_index =
                map (nth values)
                  [start_index ..<
                     min (case end_index of None \<Rightarrow> length values | Some n \<Rightarrow> n) (length values)]"
      using islice_nth [of "values" start_index end_index] by simp
  qed
  show ?thesis
  proof (intro exI conjI)
    show "Convert c r values start_index end_index =
        (res, [Factory_call (threadpool_prefix c) (threadpool_size c), Start_call]
              @ calls @ [Stop_call])" by (rule c)
  qed (rule m f b i full iff all e)+
qed


lemma Convert_batch_size_zero:
  "values \<noteq> [] \<Longrightarrow> batch_size c = 0 \<Longrightarrow>
     Convert c r values start_index end_index = (Some ZeroDivisionError, [])"
  by (simp add: Convert_def)

text \<open>
  C9, amended. For non-empty \<open>values\<close> and a positive batch size, \<^verbatim>\<open>Convert\<close> gets
  the pool from \<^verbatim>\<open>Factory\<close> and starts it; when \<^verbatim>\<open>Start\<close> raises, \<^verbatim>\<open>Convert\<close>
  raises the same exception and does not call \<^verbatim>\<open>Stop\<close>. When \<^verbatim>\<open>Start\<close> returns,
  \<^verbatim>\<open>Convert\<close> calls \<^verbatim>\<open>AddTask\<close> once per batch with \<open>blocking = True\<close> (the
  default) and \<open>inline = False\<close>, numbering the batches from 0, and ends with
  \<^verbatim>\<open>Stop\<close>, whether it returns or an \<^verbatim>\<open>AddTask\<close> raised. The batches are the first
  ones of the grouping of the slice; none is empty or longer than the batch size, and
  all but the last submitted one have exactly that size. When no \<^verbatim>\<open>AddTask\<close> raises,
  the batches put together are the slice, which holds the elements at the indices from
  \<open>start_index\<close> up to, not including, \<open>end_index\<close>.
\<close>

theorem Convert_stops_started_pool:
  assumes "values \<noteq> []" and "0 < batch_size c"
  shows "(\<forall>err. start_raises r = Some err \<longrightarrow>
             Convert c r values start_index end_index =
               (Some err, [Factory_call (threadpool_prefix c) (threadpool_size c), Start_call]))
     \<and> (start_raises r = None \<longrightarrow>
          (\<exists>res calls.
      Convert c r values start_index end_index =
        (res, [Factory_call (threadpool_prefix c) (threadpool_size c), Start_call]
              @ calls @ [Stop_call])
      \<and> map batch calls =
           take (length calls) (Grouper (islice values start_index end_index) (batch_size c))
      \<and> (\<forall>call \<in> set calls. \<exists>b k. call = AddTask_call b k True False)
      \<and> (\<forall>call \<in> set calls. batch call \<noteq> [] \<and> length (batch call) \<le> batch_size c)
      \<and> (\<forall>j < length calls. batch_index (calls ! j) = j)
      \<and> (\<forall>j. Suc j < length calls \<longrightarrow> length (batch (calls ! j)) = batch_size c)
      \<and> (res = None \<longleftrightarrow>
            (\<forall>j < length (Grouper (islice values start_index end_index) (batch_size c)).
               add_task_raises r j = None))
      \<and> (res = None \<longrightarrow>
            concat (map batch calls) = islice values start_index end_index
            \<and> islice values start_index end_index =
                map (nth values)
                  [start_index ..<
                     min (case end_index of None \<Rightarrow> length values | Some n \<Rightarrow> n) (length values)])
      \<and> (\<forall>e. res = Some e \<longrightarrow> calls \<noteq> [] \<and> add_task_raises r (length calls - 1) = Some e)))"
proof (intro conjI impI allI)
  fix err
  assume "start_raises r = Some err"
  with assms show "Convert c r values start_index end_index =
      (Some err, [Factory_call (threadpool_prefix c) (threadpool_size c), Start_call])"
    by (simp add: Convert_def)
next
  assume s: "start_raises r = None"
  from Convert_after_Start [OF assms s, of start_index end_index]
  show "\<exists>res calls.
      Convert c r values start_index end_index =
        (res, [Factory_call (threadpool_prefix c) (threadpool_size c), Start_call]
              @ calls @ [Stop_call])
      \<and> map batch calls =
           take (length calls) (Grouper (islice values start_index end_index) (batch_size c))
      \<and> (\<forall>call \<in> set calls. \<exists>b k. call = AddTask_call b k True False)
      \<and> (\<forall>call \<in> set calls. batch call \<noteq> [] \<and> length (batch call) \<le> batch_size c)
      \<and> (\<forall>j < length calls. batch_index (calls ! j) = j)
      \<and> (\<forall>j. Suc j < length calls \<longrightarrow> length (batch (calls ! j)) = batch_size c)
      \<and> (res = None \<longleftrightarrow>
            (\<forall>j < length (Grouper (islice values start_index end_index) (batch_size c)).
               add_task_raises r j = None))
      \<and> (res = None \<longrightarrow>
            concat (map batch calls) = islice values start_index end_index
            \<and> islice values start_index end_index =
                map (nth values)
                  [start_index ..<
                     min (case end_index of None \<Rightarrow> length values | Some n \<Rightarrow> n) (length values)])
      \<and> (\<forall>e. res = Some e \<longrightarrow> calls \<noteq> [] \<and> add_task_raises r (length calls - 1) = Some e)" .
qed

text \<open>
  C9, as stated, fails: \<^verbatim>\<open>pool.Start()\<close> (line 521) stands before the \<^verbatim>\<open>try\<close> of
  line 522, so when \<^verbatim>\<open>Start\<close> raises, \<^verbatim>\<open>Convert\<close> raises and the pool is not
  stopped; and with a batch size of 0 the division of line 514 raises before a pool
  exists, so that nothing is submitted.
\<close>

theorem Convert_raises_without_Stop:
  "Convert pairs_converter start_fails [10, 11, 12 :: nat] 0 None =
     (Some ThreadError, [Factory_call ''batch_processor'' 10, Start_call])
   \<and> Convert unbatched_converter no_failures [10, 11, 12 :: nat] 0 None =
     (Some ZeroDivisionError, [])"
  by (simp add: Convert_def pairs_converter_def start_fails_def unbatched_converter_def
      no_failures_def)

theorem Convert_stops_started_pool_witness:
  "[10, 11, 12, 13, 14 :: nat] \<noteq> [] \<and> 0 < batch_size pairs_converter
   \<and> start_raises no_failures = None \<and> start_raises second_batch_fails = None
   \<and> start_raises start_fails = Some ThreadError
   \<and> Convert pairs_converter no_failures [10, 11, 12, 13, 14 :: nat] 1 (Some 4) =
        (None, [Factory_call ''batch_processor'' 10, Start_call,
                AddTask_call [11, 12] 0 True False, AddTask_call [13] 1 True False, Stop_call])
   \<and> Convert pairs_converter second_batch_fails [10, 11, 12, 13, 14 :: nat] 0 None =
        (Some (Exception ''failed''),
         [Factory_call ''batch_processor'' 10, Start_call,
          AddTask_call [10, 11] 0 True False, AddTask_call [12, 13] 1 True False, Stop_call])
   \<and> Convert pairs_converter start_fails [10, 11, 12, 13, 14 :: nat] 0 None =
        (Some ThreadError, [Factory_call ''batch_processor'' 10, Start_call])"
proof -
  have a: "[10, 11, 12, 13, 14 :: nat] \<noteq> []" and b: "0 < batch_size pairs_converter"
    and c: "start_raises no_failures = None" and d: "start_raises second_batch_fails = None"
    and f: "start_raises start_fails = Some ThreadError"
    and p: "threadpool_prefix pairs_converter = ''batch_processor''"
      "threadpool_size pairs_converter = 10"
    by (simp_all add: pairs_converter_def no_failures_def second_batch_fails_def start_fails_def)
  from Convert_stops_started_pool [OF a b, of start_fails 0 None] f p
  have "Convert pairs_converter start_fails [10, 11, 12, 13, 14 :: nat] 0 None =
        (Some ThreadError, [Factory_call ''batch_processor'' 10, Start_call])"
    by simp
  moreover from Convert_stops_started_pool [OF a b, of no_failures 1 "Some 4"] c
  obtain res calls where
    "Convert pairs_converter no_failures [10, 11, 12, 13, 14 :: nat] 1 (Some 4) =
       (res, [Factory_call (threadpool_prefix pairs_converter) (threadpool_size pairs_converter),
              Start_call] @ calls @ [Stop_call])"
    by blast
  moreover have "Convert pairs_converter no_failures [10, 11, 12, 13, 14 :: nat] 1 (Some 4) =
        (None, [Factory_call ''batch_processor'' 10, Start_call,
                AddTask_call [11, 12] 0 True False, AddTask_call [13] 1 True False, Stop_call])"
    by (simp add: Convert_def pairs_converter_def no_failures_def islice_def Grouper_step Grouper_Nil)
  moreover have "Convert pairs_converter second_batch_fails [10, 11, 12, 13, 14 :: nat] 0 None =
        (Some (Exception ''failed''),
         [Factory_call ''batch_processor'' 10, Start_call,
          AddTask_call [10, 11] 0 True False, AddTask_call [12, 13] 1 True False, Stop_call])"
    by (simp add: Convert_def pairs_converter_def second_batch_fails_def islice_def Grouper_step Grouper_Nil)
  ultimately show ?thesis using a b c d f by simp
qed

subsection \<open>AddTask\<close>

lemma AddTask_try_cases:
  "AddTask_try cpu_percent start_result target args task_name blocking inline w =
    (if put_nowait (Task (target, args, task_name, now w)) (queue (pool w)) \<noteq> None
     then (Return, w\<lparr>pool := (pool w)\<lparr>queue :=
              the (put_nowait (Task (target, args, task_name, now w)) (queue (pool w)))\<rparr>\<rparr>)
     else if len w < max_threads (pool w) \<and> CPUUsage (pool w) cpu_percent < 90
     then (case start_result of
             None \<Rightarrow> (Continue, snd (AddWorker None w))
           | Some e \<Rightarrow>
               if e = RuntimeError \<or> e = ThreadError
               then (if inline then Break else if blocking then Block else Raise Full,
                     (snd (AddWorker (Some e) w))\<lparr>LOG := LOG w @
                        [(ERROR, ''Threadpool exception: Could not spawn worker threads.'', [])]\<rparr>)
               else (Raise e, snd (AddWorker (Some e) w)))
     else (if inline then Break else if blocking then Block else Raise Full, w))"
  by (auto simp add: AddTask_try_def AddWorker_def Let_def split: option.splits)

lemma AddTask_try_Full:
  assumes "start_result \<noteq> Some Full"
  shows "fst (AddTask_try cpu_percent start_result target args task_name blocking inline w) = Raise Full
     \<longleftrightarrow> \<not> blocking \<and> \<not> inline
         \<and> put_nowait (Task (target, args, task_name, now w)) (queue (pool w)) = None
         \<and> (max_threads (pool w) \<le> len w \<or> 90 \<le> CPUUsage (pool w) cpu_percent
              \<or> start_result = Some RuntimeError \<or> start_result = Some ThreadError)"
  using assms
  by (cases start_result) (auto simp add: AddTask_try_cases)

lemma AddTask_try_Break:
  "fst (AddTask_try cpu_percent start_result target args task_name blocking inline w) = Break
     \<longleftrightarrow> inline
         \<and> put_nowait (Task (target, args, task_name, now w)) (queue (pool w)) = None
         \<and> (max_threads (pool w) \<le> len w \<or> 90 \<le> CPUUsage (pool w) cpu_percent
              \<or> start_result = Some RuntimeError \<or> start_result = Some ThreadError)"
  by (cases start_result) (auto simp add: AddTask_try_cases)

lemma AddTask_try_Block:
  "fst (AddTask_try cpu_percent start_result target args task_name blocking inline w) = Block
     \<Longrightarrow> blocking \<and> \<not> inline"
  by (cases start_result) (auto simp add: AddTask_try_cases split: if_splits)

lemma AddTask_blocking_put_ctl:
  "fst (AddTask_blocking_put target args task_name w) = Return
   \<or> fst (AddTask_blocking_put target args task_name w) = Continue"
  by (simp add: AddTask_blocking_put_def split: option.splits)

lemma AddTask_try_max_threads:
  "max_threads (pool (snd (AddTask_try cpu_percent start_result target args task_name blocking inline w)))
     = max_threads (pool w)"
  by (cases start_result) (auto simp add: AddTask_try_cases AddWorker_def Let_def)

lemma AddTask_loop_Full:
  "\<forall>i \<in> set sched. thread_start i \<noteq> Some Full \<Longrightarrow>
   AddTask_loop sched target args task_name blocking inline w = Some (Raise Full, w') \<Longrightarrow>
   \<not> blocking \<and> \<not> inline"
proof (induction sched arbitrary: w)
  case Nil
  then show ?case by simp
next
  case (Cons i sched)
  let ?v = "workers_take (taken_before i) w"
  obtain c u where p: "AddTask_try (cpu_reading i) (thread_start i) target args task_name
      blocking inline ?v = (c, u)"
    by (cases "AddTask_try (cpu_reading i) (thread_start i) target args task_name blocking inline ?v")
  from Cons.prems(1) have nf: "thread_start i \<noteq> Some Full"
    and rest: "\<forall>i \<in> set sched. thread_start i \<noteq> Some Full" by simp_all
  show ?case
  proof (cases c)
    case Return
    with p Cons.prems(2) show ?thesis by simp
  next
    case Continue
    with p Cons.prems(2) have "AddTask_loop sched target args task_name blocking inline u
        = Some (Raise Full, w')" by simp
    with rest show ?thesis by (rule Cons.IH)
  next
    case Break
    with p Cons.prems(2) show ?thesis by simp
  next
    case Block
    obtain c' u' where q: "AddTask_blocking_put target args task_name
        (workers_take (taken_while_blocked i) u) = (c', u')"
      by (cases "AddTask_blocking_put target args task_name (workers_take (taken_while_blocked i) u)")
    from AddTask_blocking_put_ctl [of target args task_name "workers_take (taken_while_blocked i) u"] q
    have "c' = Return \<or> c' = Continue" by simp
    then show ?thesis
    proof
      assume "c' = Return"
      with p q Block Cons.prems(2) show ?thesis by simp
    next
      assume "c' = Continue"
      with p q Block Cons.prems(2) have "AddTask_loop sched target args task_name blocking inline u'
        = Some (Raise Full, w')" by simp
      with rest show ?thesis by (rule Cons.IH)
    qed
  next
    case (Raise e)
    with p Cons.prems(2) have "e = Full" by simp
    with Raise p have "fst (AddTask_try (cpu_reading i) (thread_start i) target args task_name
      blocking inline ?v) = Raise Full" by simp
    with nf show ?thesis by (simp add: AddTask_try_Full)
  qed
qed

lemma AddTask_Full_only_if:
  assumes "\<forall>i \<in> set sched. thread_start i \<noteq> Some Full"
    and "AddTask sched target args task_name blocking inline w = Some ((Some Full, False), w')"
  shows "\<not> blocking \<and> \<not> inline \<and> max_threads (pool w) \<noteq> 0"
proof -
  from assms(2) have m: "max_threads (pool w) \<noteq> 0"
    by (auto simp add: AddTask_def split: if_splits)
  let ?b = "if inline then False else blocking"
  from assms(2) m obtain c u where l: "AddTask_loop sched target args task_name ?b inline w = Some (c, u)"
    by (auto simp add: AddTask_def Let_def split: option.splits)
  with assms(2) m have "c = Raise Full \<and> u = w'"
    by (cases c) (auto simp add: AddTask_def Let_def split: if_splits)
  with l have "AddTask_loop sched target args task_name ?b inline w = Some (Raise Full, w')" by simp
  with assms(1) have "\<not> ?b \<and> \<not> inline" by (rule AddTask_loop_Full)
  with m show ?thesis by (cases inline) simp_all
qed


text \<open>
  C1. On a pool with \<open>max_threads > 0\<close>, a pass of the admission loop, taken in
  the state \<open>v\<close> the workers have left, raises \<open>Full\<close> exactly when the call is
  neither blocking nor inline, the non-blocking \<^verbatim>\<open>put\<close> finds the queue full and
  the pass spawns no worker: the pool is at \<open>max_threads\<close>, the CPU usage is at
  least 90, or starting the thread failed with one of the two errors the code catches.
  \<^verbatim>\<open>AddTask\<close> then raises \<open>Full\<close> to its caller; after a pass that spawned a
  worker it goes on with the next pass. A call that raises \<open>Full\<close> is neither
  blocking nor inline; in particular a call with the default arguments never does, and
  with \<open>inline\<close> set a saturated pass that spawns no worker ends in the target
  running on the caller. (The thread library is assumed not to raise the pool's own
  \<open>Full\<close>.)
\<close>

theorem AddTask_raises_Full_exactly:
  fixes w :: "'a world"
  assumes "max_threads (pool w) \<noteq> 0"
    and "\<forall>j \<in> set sched. thread_start j \<noteq> Some Full"
    and "thread_start i \<noteq> Some Full"
  shows "(let v = workers_take (taken_before i) w;
              pass = AddTask_try (cpu_reading i) (thread_start i) target args task_name
                       (if inline then False else blocking) inline v;
              saturated = (put_nowait (Task (target, args, task_name, now v)) (queue (pool v)) = None);
              no_worker_spawned = (max_threads (pool v) \<le> len v
                 \<or> 90 \<le> CPUUsage (pool v) (cpu_reading i)
                 \<or> thread_start i = Some RuntimeError \<or> thread_start i = Some ThreadError)
          in (fst pass = Raise Full \<longleftrightarrow> \<not> blocking \<and> \<not> inline \<and> saturated \<and> no_worker_spawned)
           \<and> (fst pass = Raise Full \<longrightarrow>
                 AddTask (i # rest) target args task_name blocking inline w
                   = Some ((Some Full, False), snd pass))
           \<and> (fst pass = Continue \<longrightarrow>
                 AddTask (i # rest) target args task_name blocking inline w
                   = AddTask rest target args task_name blocking inline (snd pass))
           \<and> (inline \<and> saturated \<and> no_worker_spawned \<longrightarrow>
                 AddTask (i # rest) target args task_name blocking inline w
                   = Some ((target args, True), snd pass)))
     \<and> (\<forall>w'. AddTask sched target args task_name blocking inline w = Some ((Some Full, False), w')
            \<longrightarrow> \<not> blocking \<and> \<not> inline)
     \<and> (\<forall>w'. AddTask sched target args task_name True True w \<noteq> Some ((Some Full, False), w'))"
proof -
  let ?v = "workers_take (taken_before i) w"
  let ?b = "if inline then False else blocking"
  let ?pass = "AddTask_try (cpu_reading i) (thread_start i) target args task_name ?b inline ?v"
  let ?sat = "put_nowait (Task (target, args, task_name, now ?v)) (queue (pool ?v)) = None"
  let ?nsp = "max_threads (pool ?v) \<le> len ?v \<or> 90 \<le> CPUUsage (pool ?v) (cpu_reading i)
                 \<or> thread_start i = Some RuntimeError \<or> thread_start i = Some ThreadError"
  obtain c u where p: "?pass = (c, u)" by (cases ?pass)
  have mv: "max_threads (pool ?v) = max_threads (pool w)" by (simp add: workers_take_def)
  have a: "fst ?pass = Raise Full \<longleftrightarrow> \<not> blocking \<and> \<not> inline \<and> ?sat \<and> ?nsp"
    using assms(3) by (auto simp add: AddTask_try_Full)
  have b: "fst ?pass = Raise Full \<longrightarrow>
       AddTask (i # rest) target args task_name blocking inline w = Some ((Some Full, False), snd ?pass)"
    using assms(1) p by (simp add: AddTask_def)
  have mu: "max_threads (pool u) = max_threads (pool w)"
    using AddTask_try_max_threads [of "cpu_reading i" "thread_start i" target args task_name ?b inline ?v]
      p mv by simp
  have c: "fst ?pass = Continue \<longrightarrow>
       AddTask (i # rest) target args task_name blocking inline w
         = AddTask rest target args task_name blocking inline (snd ?pass)"
    using assms(1) p mu by (simp add: AddTask_def)
  have d: "inline \<and> ?sat \<and> ?nsp \<longrightarrow>
       AddTask (i # rest) target args task_name blocking inline w
         = Some ((target args, True), snd ?pass)"
  proof
    assume h: "inline \<and> ?sat \<and> ?nsp"
    then have "fst ?pass = Break" by (simp add: AddTask_try_Break)
    with p h assms(1) show "AddTask (i # rest) target args task_name blocking inline w
         = Some ((target args, True), snd ?pass)"
      by (simp add: AddTask_def)
  qed
  have e: "\<forall>w'. AddTask sched target args task_name blocking inline w = Some ((Some Full, False), w')
            \<longrightarrow> \<not> blocking \<and> \<not> inline"
    using AddTask_Full_only_if [OF assms(2), of target args task_name blocking inline w] by blast
  have f: "\<forall>w'. AddTask sched target args task_name True True w \<noteq> Some ((Some Full, False), w')"
    using AddTask_Full_only_if [OF assms(2), of target args task_name True True w] by blast
  from a b c d e f show ?thesis by (simp only: Let_def) blast
qed


lemma w_pool_init: "init {} empty_stats ''w'' 1 None True = Inr (w_pool, w_stats)"
  by (simp add: init_def w_pool_def w_stats_def Let_def RegisterGaugeMetric_def
      RegisterCounterMetric_def RegisterEventMetric_def empty_stats_def)

lemma saturated_world_reached:
  "run [Call_Start all_start, AddTask_pass 0 None succeeds 1 ''first'' True True]
     (world_of w_pool w_stats) = Some saturated_world"
  by (simp add: world_of_def w_pool_def saturated_world_def Start_def AddWorker_def
      WorkerThread_init_def dict_store_def all_start_def AddTask_try_def put_nowait_def
      Queue_init_def qsize_def Let_def)

theorem AddTask_raises_Full_exactly_witness:
  "max_threads (pool saturated_world) \<noteq> 0
   \<and> thread_start quiet \<noteq> Some Full
   \<and> AddTask [quiet] succeeds 3 ''third'' False False saturated_world
        = Some ((Some Full, False), saturated_world)
   \<and> AddTask [quiet] succeeds 3 ''third'' True True saturated_world
        = Some ((None, True), saturated_world)"
proof -
  have m: "max_threads (pool saturated_world) \<noteq> 0" by (simp add: saturated_world_def)
  have q: "thread_start quiet \<noteq> Some Full" by (simp add: quiet_def)
  then have s: "\<forall>j \<in> set [quiet]. thread_start j \<noteq> Some Full" by simp
  have v: "workers_take (taken_before quiet) saturated_world = saturated_world"
    by (simp add: workers_take_def quiet_def saturated_world_def)
  have sat: "put_nowait (Task (succeeds, 3, ''third'', now saturated_world))
      (queue (pool saturated_world)) = None"
    by (simp add: put_nowait_def qsize_def saturated_world_def)
  have l: "max_threads (pool saturated_world) \<le> len saturated_world"
    by (simp add: len_def saturated_world_def)
  have u: "\<And>b i. snd (AddTask_try (cpu_reading quiet) (thread_start quiet) succeeds 3 ''third'' b i
      saturated_world) = saturated_world"
    using sat l by (simp add: AddTask_try_def)
  note T = AddTask_raises_Full_exactly [OF m s q, of succeeds 3 "''third''"]
  from T [of False False "[]"] v sat l u
  have a: "AddTask [quiet] succeeds 3 ''third'' False False saturated_world
        = Some ((Some Full, False), saturated_world)"
    by (simp add: Let_def)
  from T [of True True "[]"] v sat l u
  have b: "AddTask [quiet] succeeds 3 ''third'' True True saturated_world
        = Some ((succeeds 3, True), saturated_world)"
    by (simp add: Let_def)
  from m q a b show ?thesis by (simp add: succeeds_def)
qed

subsection \<open>The number of live workers\<close>

lemma ProcessTask_frame:
  "pool (snd (ProcessTask target args task_name queueing_time w)) = pool w"
  "threads (snd (ProcessTask target args task_name queueing_time w)) = threads w"
  "thread_counter (snd (ProcessTask target args task_name queueing_time w)) = thread_counter w"
  "now (snd (ProcessTask target args task_name queueing_time w)) = now w"
  "stop_call (snd (ProcessTask target args task_name queueing_time w)) = stop_call w"
  by (simp_all add: ProcessTask_def Let_def split: option.splits)

lemma AddWorker_started:
  assumes "consistent w"
  shows "fst (AddWorker None w) = None"
    and "consistent (snd (AddWorker None w))"
    and "workers (pool (snd (AddWorker None w))) = workers (pool w) @ [thread_counter w]"
    and "len (snd (AddWorker None w)) = Suc (len w)"
    and "thread_counter (snd (AddWorker None w)) = Suc (thread_counter w)"
    and "stop_call (snd (AddWorker None w)) = stop_call w"
    and "started (pool (snd (AddWorker None w))) = started (pool w)"
    and "min_threads (pool (snd (AddWorker None w))) = min_threads (pool w)"
    and "max_threads (pool (snd (AddWorker None w))) = max_threads (pool w)"
  using assms
  by (auto simp add: AddWorker_def consistent_def dict_store_def len_def Let_def)

lemma AddWorker_failed:
  "fst (AddWorker (Some e) w) = Some e"
  "pool (snd (AddWorker (Some e) w)) = pool w"
  "thread_counter (snd (AddWorker (Some e) w)) = Suc (thread_counter w)"
  "stop_call (snd (AddWorker (Some e) w)) = stop_call w"
  by (simp_all add: AddWorker_def Let_def)

lemma RemoveFromPool_effect:
  "RemoveFromPool k w = (b, w') \<Longrightarrow>
     thread_counter w' = thread_counter w \<and> stop_call w' = stop_call w \<and> threads w' = threads w
     \<and> (if b then min_threads (pool w) < len w
               \<and> pool w' = (pool w)\<lparr>workers := dict_pop k (workers (pool w)),
                                      workers_ro_copy := dict_pop k (workers (pool w))\<rparr>
          else w' = w)"
  by (auto simp add: RemoveFromPool_def RemoveWorker_def Let_def split: if_splits)

lemma same_or_retired_refl: "same_or_retired k w w"
  unfolding same_or_retired_def by (auto intro: exI [where x = "queue (pool w)"])

lemma same_or_retired_set_worker:
  "same_or_retired k w w' \<Longrightarrow> same_or_retired k w (set_worker j x w')"
  by (simp add: same_or_retired_def set_worker_def)

lemma same_or_retired_queue: "same_or_retired k w (w\<lparr>pool := (pool w)\<lparr>queue := q\<rparr>\<rparr>)"
  unfolding same_or_retired_def by auto

lemma same_or_retired_ProcessTask:
  "same_or_retired k w (snd (ProcessTask target args task_name queueing_time w))"
  unfolding same_or_retired_def
  by (auto simp add: ProcessTask_frame intro: exI [where x = "queue (pool w)"])

lemma same_or_retired_RemoveFromPool:
  "same_or_retired k w (snd (RemoveFromPool k w))"
  unfolding same_or_retired_def
  by (auto simp add: RemoveFromPool_def RemoveWorker_def Let_def intro: exI [where x = "queue (pool w)"])

lemma run_step_effect:
  assumes "run_step k w = Some w'"
  shows "same_or_retired k w w'"
proof -
  from assms obtain x where x: "threads w k = Some x"
    by (auto simp add: run_step_def split: option.splits)
  show ?thesis
  proof (cases "pc x")
    case NotStarted
    with assms x show ?thesis by (simp add: run_step_def)
  next
    case LoopTop
    with assms x have "w' = set_worker k (x\<lparr>idle := (if name (pool w) \<noteq> [] then True else idle x), pc := AtGet\<rparr>) w"
      by (simp add: run_step_def)
    then show ?thesis by (simp add: same_or_retired_set_worker same_or_retired_refl)
  next
    case AtGet
    show ?thesis
    proof (cases "get (queue (pool w))")
      case None
      with AtGet assms x have "w' = set_worker k (x\<lparr>pc := AtEmpty\<rparr>) w"
        by (simp add: run_step_def)
      then show ?thesis by (simp add: same_or_retired_set_worker same_or_retired_refl)
    next
      case (Some mq)
      obtain m q where "mq = (m, q)" by (cases mq)
      with Some AtGet assms x
      have "w' = set_worker k (x\<lparr>pc := Holding m\<rparr>) (w\<lparr>pool := (pool w)\<lparr>queue := q\<rparr>\<rparr>)"
        by (simp add: run_step_def)
      then show ?thesis by (simp add: same_or_retired_set_worker same_or_retired_queue)
    qed
  next
    case (Holding m)
    with assms x have "w' = set_worker k
        (x\<lparr>idle := (if name (pool w) \<noteq> [] then False else idle x), pc := InTry m\<rparr>) w"
      by (simp add: run_step_def)
    then show ?thesis by (simp add: same_or_retired_set_worker same_or_retired_refl)
  next
    case (InTry m)
    show ?thesis
    proof (cases m)
      case STOP_MESSAGE
      with InTry assms x have "w' = set_worker k (x\<lparr>pc := AtTaskDone ThenReturn\<rparr>) w"
        by (simp add: run_step_def)
      then show ?thesis by (simp add: same_or_retired_set_worker same_or_retired_refl)
    next
      case (Task t)
      obtain target args task_name queueing_time where t: "t = (target, args, task_name, queueing_time)"
        by (cases t)
      obtain r u where p: "ProcessTask target args task_name queueing_time w = (r, u)"
        by (cases "ProcessTask target args task_name queueing_time w")
      from p have u: "same_or_retired k w u"
        using same_or_retired_ProcessTask [of k w target args task_name queueing_time] by simp
      from Task InTry assms x t p have "\<exists>y. w' = set_worker k y u"
        by (cases r) (auto simp add: run_step_def)
      with u show ?thesis by (auto simp add: same_or_retired_set_worker)
    qed
  next
    case (AtTaskDone a)
    show ?thesis
    proof (cases "task_done (queue (pool w))")
      case (Inl e)
      with AtTaskDone assms x have "w' = set_worker k (x\<lparr>pc := Exited\<rparr>) w"
        by (simp add: run_step_def)
      then show ?thesis by (simp add: same_or_retired_set_worker same_or_retired_refl)
    next
      case (Inr q)
      with AtTaskDone assms x have "\<exists>y. w' = set_worker k y (w\<lparr>pool := (pool w)\<lparr>queue := q\<rparr>\<rparr>)"
        by (auto simp add: run_step_def)
      then show ?thesis by (auto simp add: same_or_retired_set_worker same_or_retired_queue)
    qed
  next
    case AtEmpty
    obtain b u where r: "RemoveFromPool k w = (b, u)" by (cases "RemoveFromPool k w")
    with AtEmpty assms x have "\<exists>y. w' = set_worker k y u"
      by (cases b) (auto simp add: run_step_def)
    moreover from r have "same_or_retired k w u"
      using same_or_retired_RemoveFromPool [of k w] by simp
    ultimately show ?thesis by (auto simp add: same_or_retired_set_worker)
  next
    case AtAgeCheck
    obtain b u where r: "RemoveFromPool k w = (b, u)" by (cases "RemoveFromPool k w")
    from r have u: "same_or_retired k w u"
      using same_or_retired_RemoveFromPool [of k w] by simp
    from AtAgeCheck assms x r have "\<exists>y. w' = set_worker k y u \<or> w' = set_worker k y w"
      by (cases b) (auto simp add: run_step_def split: if_splits)
    with u show ?thesis
      by (auto simp add: same_or_retired_set_worker same_or_retired_refl)
  next
    case Exited
    with assms x show ?thesis by (simp add: run_step_def)
  qed
qed

lemma dict_pop_props:
  "distinct ks \<Longrightarrow> distinct (dict_pop k ks)"
  "set (dict_pop k ks) \<subseteq> set ks"
  "length (dict_pop k ks) \<le> length ks"
  "distinct ks \<Longrightarrow> length ks \<le> Suc (length (dict_pop k ks))"
proof -
  show "distinct ks \<Longrightarrow> distinct (dict_pop k ks)" by (simp add: dict_pop_def distinct_removeAll)
  show "set (dict_pop k ks) \<subseteq> set ks" by (auto simp add: dict_pop_def)
  show "length (dict_pop k ks) \<le> length ks" by (simp add: dict_pop_def)
  show "distinct ks \<Longrightarrow> length ks \<le> Suc (length (dict_pop k ks))"
    by (auto simp add: dict_pop_def distinct_remove1_removeAll [symmetric] length_remove1)
qed

lemma same_or_retired_live_bounds:
  assumes "same_or_retired k w w'" and "live_bounds w"
  shows "live_bounds w' \<and> min_threads (pool w') = min_threads (pool w)
         \<and> max_threads (pool w') = max_threads (pool w)"
proof -
  from assms(1) have tc: "thread_counter w' = thread_counter w" and sc: "stop_call w' = stop_call w"
    by (simp_all add: same_or_retired_def)
  from assms(1) obtain q where
    "pool w' = (pool w)\<lparr>queue := q\<rparr>
      \<or> (min_threads (pool w) < len w
          \<and> pool w' = (pool w)\<lparr>workers := dict_pop k (workers (pool w)),
                                 workers_ro_copy := dict_pop k (workers (pool w))\<rparr>)"
    by (auto simp add: same_or_retired_def)
  then show ?thesis
  proof
    assume "pool w' = (pool w)\<lparr>queue := q\<rparr>"
    with assms(2) tc sc show ?thesis
      by (auto simp add: live_bounds_def consistent_def len_def)
  next
    assume r: "min_threads (pool w) < len w
          \<and> pool w' = (pool w)\<lparr>workers := dict_pop k (workers (pool w)),
                                 workers_ro_copy := dict_pop k (workers (pool w))\<rparr>"
    from assms(2) have d: "distinct (workers (pool w))"
      and ro: "workers_ro_copy (pool w) = workers (pool w)"
      and ks: "\<forall>j \<in> set (workers (pool w)). j < thread_counter w"
      and up: "len w \<le> max_threads (pool w)"
      and st: "started (pool w)" "stop_call w = None"
      by (simp_all add: live_bounds_def consistent_def)
    from d have l1: "length (workers (pool w)) \<le> Suc (length (dict_pop k (workers (pool w))))"
      by (rule dict_pop_props)
    have l2: "length (dict_pop k (workers (pool w))) \<le> length (workers (pool w))"
      by (rule dict_pop_props)
    from d have d': "distinct (dict_pop k (workers (pool w)))" by (rule dict_pop_props)
    have "set (dict_pop k (workers (pool w))) \<subseteq> set (workers (pool w))" by (rule dict_pop_props)
    with ks have ks': "\<forall>j \<in> set (dict_pop k (workers (pool w))). j < thread_counter w" by blast
    from r ro l1 l2 up have "min_threads (pool w) \<le> length (dict_pop k (workers (pool w)))"
      and "length (dict_pop k (workers (pool w))) \<le> max_threads (pool w)"
      by (simp_all add: len_def)
    with r d' ks' tc sc st show ?thesis
      by (simp add: live_bounds_def consistent_def len_def)
  qed
qed

lemma AddTask_try_live_bounds:
  assumes "live_bounds w"
  shows "live_bounds (snd (AddTask_try cpu_percent start_result target args task_name blocking inline w))
     \<and> min_threads (pool (snd (AddTask_try cpu_percent start_result target args task_name blocking inline w)))
         = min_threads (pool w)
     \<and> max_threads (pool (snd (AddTask_try cpu_percent start_result target args task_name blocking inline w)))
         = max_threads (pool w)"
proof -
  from assms have c: "consistent w" by (simp add: live_bounds_def)
  note ok = AddWorker_started [OF c]
  have grown: "len w < max_threads (pool w) \<Longrightarrow> live_bounds (snd (AddWorker None w))
     \<and> min_threads (pool (snd (AddWorker None w))) = min_threads (pool w)
     \<and> max_threads (pool (snd (AddWorker None w))) = max_threads (pool w)"
    using assms c by (auto simp add: AddWorker_def consistent_def dict_store_def len_def Let_def live_bounds_def)
  have failed: "\<And>e. live_bounds (snd (AddWorker (Some e) w))"
    using assms by (auto simp add: AddWorker_def consistent_def len_def Let_def live_bounds_def)
  have failed_log: "\<And>e l. live_bounds ((snd (AddWorker (Some e) w))\<lparr>LOG := l\<rparr>)"
    using assms by (auto simp add: AddWorker_def consistent_def len_def Let_def live_bounds_def)
  have queue: "\<And>q. live_bounds (w\<lparr>pool := (pool w)\<lparr>queue := q\<rparr>\<rparr>)"
    using assms by (auto simp add: consistent_def len_def live_bounds_def)
  show ?thesis
    using assms grown failed failed_log queue
    by (cases start_result) (auto simp add: AddTask_try_cases AddWorker_failed)
qed

lemma Start_loop_started:
  assumes "consistent w" and "Start_loop n spawn i w = (None, w')"
  shows "consistent w' \<and> len w' = len w + n \<and> stop_call w' = stop_call w
     \<and> started (pool w') = started (pool w) \<and> min_threads (pool w') = min_threads (pool w)
     \<and> max_threads (pool w') = max_threads (pool w)"
  using assms
proof (induction n arbitrary: i w)
  case 0
  then show ?case by simp
next
  case (Suc n)
  show ?case
  proof (cases "spawn i")
    case (Some e)
    with Suc.prems(2) show ?thesis by (simp add: AddWorker_def Let_def)
  next
    case None
    obtain r u where a: "AddWorker None w = (r, u)" by (cases "AddWorker None w")
    with AddWorker_started [OF Suc.prems(1)]
    have r: "r = None" and c: "consistent u" and l: "len u = Suc (len w)"
      and s: "stop_call u = stop_call w"
      and f: "started (pool u) = started (pool w)"
      "min_threads (pool u) = min_threads (pool w)" "max_threads (pool u) = max_threads (pool w)"
      by simp_all
    from Suc.prems(2) None a r have "Start_loop n spawn (Suc i) u = (None, w')" by simp
    from Suc.IH [OF c this] l s f show ?thesis by simp
  qed
qed


lemma step_live_bounds:
  assumes "step e w = Some w'" and "e \<noteq> Call_Stop" and "live_bounds w"
  shows "live_bounds w' \<and> min_threads (pool w') = min_threads (pool w)
         \<and> max_threads (pool w') = max_threads (pool w)"
proof (cases e)
  case (Call_Start spawn)
  from assms(3) have "started (pool w)" by (simp add: live_bounds_def)
  with Call_Start assms(1) have "w' = w" by (simp add: Start_def split: if_splits)
  with assms(3) show ?thesis by simp
next
  case Call_Stop
  with assms(2) show ?thesis by simp
next
  case Stop_continues
  from assms(3) have "stop_call w = None" by (simp add: live_bounds_def)
  with Stop_continues assms(1) show ?thesis by (simp add: Stop_step_def)
next
  case (AddTask_pass cpu_percent start_result target args task_name blocking inline)
  show ?thesis
  proof (cases "max_threads (pool w) = 0")
    case True
    with AddTask_pass assms(1) have "w' = w" by (simp split: if_splits)
    with assms(3) show ?thesis by simp
  next
    case False
    with AddTask_pass assms(1)
    have "w' = snd (AddTask_try cpu_percent start_result target args task_name
                      (if inline then False else blocking) inline w)"
      by (simp split: if_splits)
    with assms(3) show ?thesis by (simp add: AddTask_try_live_bounds)
  qed
next
  case (AddTask_blocked target args task_name)
  with assms(1) have "w' = snd (AddTask_blocking_put target args task_name w)"
    by (simp split: if_splits)
  then have "w' = w \<or> (\<exists>q. w' = w\<lparr>pool := (pool w)\<lparr>queue := q\<rparr>\<rparr>)"
    by (auto simp add: AddTask_blocking_put_def split: option.splits)
  with assms(3) show ?thesis
    by (auto simp add: live_bounds_def consistent_def len_def)
next
  case (Worker_step k)
  with assms(1) have "run_step k w = Some w'" by simp
  then have "same_or_retired k w w'" by (rule run_step_effect)
  then show ?thesis using assms(3) by (rule same_or_retired_live_bounds)
next
  case (Tick d)
  with assms(1) have "w' = w\<lparr>now := now w + d\<rparr>" by (simp split: if_splits)
  with assms(3) show ?thesis by (auto simp add: live_bounds_def consistent_def len_def)
qed

lemma run_live_bounds:
  assumes "run evs w = Some w'" and "Call_Stop \<notin> set evs" and "live_bounds w"
  shows "live_bounds w' \<and> min_threads (pool w') = min_threads (pool w)
         \<and> max_threads (pool w') = max_threads (pool w)"
  using assms
proof (induction evs arbitrary: w)
  case Nil
  then show ?case by simp
next
  case (Cons e evs)
  from Cons.prems(1) obtain u where s: "step e w = Some u" and r: "run evs u = Some w'"
    by (auto split: option.splits)
  from Cons.prems(2) have ne: "e \<noteq> Call_Stop" and rest: "Call_Stop \<notin> set evs" by auto
  from step_live_bounds [OF s ne Cons.prems(3)]
  have u: "live_bounds u" and m: "min_threads (pool u) = min_threads (pool w)"
    "max_threads (pool u) = max_threads (pool w)" by simp_all
  from Cons.IH [OF r rest u] m show ?case by simp
qed

lemma lifecycle_live_bounds:
  "lifecycle w \<Longrightarrow> started (pool w) \<Longrightarrow> stop_call w = None \<Longrightarrow> live_bounds w"
  by (simp add: lifecycle_def live_bounds_def)

lemma live_bounds_lifecycle:
  "live_bounds w \<Longrightarrow> min_threads (pool w) \<le> max_threads (pool w) \<Longrightarrow> lifecycle w"
  by (simp add: lifecycle_def live_bounds_def)

lemma Stop_enter_lifecycle:
  assumes "lifecycle w" and "stop_call w = None"
  shows "lifecycle (Stop_enter w) \<and> min_threads (pool (Stop_enter w)) = min_threads (pool w)
         \<and> max_threads (pool (Stop_enter w)) = max_threads (pool w)"
  using assms by (auto simp add: Stop_enter_def lifecycle_def consistent_def len_def)

lemma Stop_step_lifecycle:
  assumes "Stop_step w = Some w'" and "lifecycle w"
  shows "lifecycle w' \<and> min_threads (pool w') = min_threads (pool w)
         \<and> max_threads (pool w') = max_threads (pool w)"
proof -
  from assms(1) obtain sp where sp: "stop_call w = Some sp"
    by (auto simp add: Stop_step_def split: option.splits)
  with assms(2) have z: "len w = 0" and c: "consistent w"
    and mm: "min_threads (pool w) \<le> max_threads (pool w)"
    by (simp_all add: lifecycle_def)
  show ?thesis
  proof (cases sp)
    case (Pushing captured n)
    show ?thesis
    proof (cases n)
      case 0
      with Pushing sp assms(1)
      have "w' = w\<lparr>pool := (pool w)\<lparr>started := False\<rparr>, stop_call := Some (Joining captured)\<rparr>"
        by (simp add: Stop_step_def)
      with z c mm show ?thesis by (simp add: lifecycle_def consistent_def len_def)
    next
      case (Suc m)
      with Pushing sp assms(1) obtain q where
        "w' = w\<lparr>pool := (pool w)\<lparr>queue := q\<rparr>, stop_call := Some (Pushing captured m)\<rparr>"
        by (auto simp add: Stop_step_def split: option.splits)
      with z c mm show ?thesis by (simp add: lifecycle_def consistent_def len_def)
    qed
  next
    case (Joining captured)
    with sp assms(2) have ns: "\<not> started (pool w)" by (simp add: lifecycle_def)
    from Joining sp assms(1) have "w' = w\<lparr>stop_call := Some (JoiningWorkers captured)\<rparr>"
      by (simp add: Stop_step_def split: if_splits)
    with z c mm ns show ?thesis by (simp add: lifecycle_def consistent_def len_def)
  next
    case (JoiningWorkers captured)
    with sp assms(2) have ns: "\<not> started (pool w)" by (simp add: lifecycle_def)
    from JoiningWorkers sp assms(1) have "w' = w\<lparr>stop_call := None\<rparr>"
      by (simp add: Stop_step_def split: if_splits)
    with z c mm ns show ?thesis by (simp add: lifecycle_def consistent_def len_def)
  qed
qed

lemma same_or_retired_lifecycle:
  assumes "same_or_retired k w w'" and "lifecycle w" and "len w = 0"
  shows "lifecycle w' \<and> min_threads (pool w') = min_threads (pool w)
         \<and> max_threads (pool w') = max_threads (pool w)"
proof -
  from assms(1,3) obtain q where "pool w' = (pool w)\<lparr>queue := q\<rparr>"
    and "thread_counter w' = thread_counter w" and "stop_call w' = stop_call w"
    by (auto simp add: same_or_retired_def)
  with assms(2) show ?thesis
    by (auto simp add: lifecycle_def consistent_def len_def split: option.splits stop_pc.splits)
qed

lemma live_step_lifecycle:
  assumes "step e w = Some w'" and "e \<noteq> Call_Stop" and "lifecycle w"
    and "started (pool w)" and "stop_call w = None"
  shows "lifecycle w' \<and> min_threads (pool w') = min_threads (pool w)
         \<and> max_threads (pool w') = max_threads (pool w)"
proof -
  from assms(3-5) have b: "live_bounds w" by (rule lifecycle_live_bounds)
  from step_live_bounds [OF assms(1,2) b]
  have b': "live_bounds w'" and m: "min_threads (pool w') = min_threads (pool w)"
    "max_threads (pool w') = max_threads (pool w)" by simp_all
  from assms(3) have "min_threads (pool w) \<le> max_threads (pool w)" by (simp add: lifecycle_def)
  with m have "min_threads (pool w') \<le> max_threads (pool w')" by simp
  with b' have "lifecycle w'" by (rule live_bounds_lifecycle)
  with m show ?thesis by simp
qed

lemma Start_lifecycle:
  assumes "lifecycle w" and "stop_call w = None" and "fst (Start spawn w) = None"
  shows "lifecycle (snd (Start spawn w))
         \<and> min_threads (pool (snd (Start spawn w))) = min_threads (pool w)
         \<and> max_threads (pool (snd (Start spawn w))) = max_threads (pool w)"
proof (cases "started (pool w)")
  case True
  with assms(1) show ?thesis by (simp add: Start_def)
next
  case False
  let ?v = "w\<lparr>pool := (pool w)\<lparr>started := True\<rparr>\<rparr>"
  from False assms(1) have z: "len w = 0" and c: "consistent w"
    and mm: "min_threads (pool w) \<le> max_threads (pool w)"
    by (simp_all add: lifecycle_def)
  from c have cv: "consistent ?v" by (simp add: consistent_def)
  from False have s: "Start spawn w = Start_loop (min_threads (pool w)) spawn 0 ?v"
    by (simp add: Start_def)
  with assms(3) have "Start_loop (min_threads (pool w)) spawn 0 ?v = (None, snd (Start spawn w))"
    by (simp add: prod_eq_iff)
  from Start_loop_started [OF cv this] z assms(2) mm
  show ?thesis by (simp add: lifecycle_def len_def)
qed

lemma step_lifecycle:
  assumes "step e w = Some w'" and "admitted e w" and "lifecycle w"
  shows "lifecycle w' \<and> min_threads (pool w') = min_threads (pool w)
         \<and> max_threads (pool w') = max_threads (pool w)"
proof (cases e)
  case (Call_Start spawn)
  with assms(1) have sc: "stop_call w = None" and w': "w' = snd (Start spawn w)"
    by (simp_all split: if_splits)
  from Call_Start assms(2) have "fst (Start spawn w) = None"
    by (simp add: admitted_def split: option.splits)
  from Start_lifecycle [OF assms(3) sc this] w' show ?thesis by simp
next
  case Call_Stop
  with assms(1) have sc: "stop_call w = None" and w': "w' = Stop_enter w"
    by (simp_all split: if_splits)
  from Stop_enter_lifecycle [OF assms(3) sc] w' show ?thesis by simp
next
  case Stop_continues
  with assms(1) have "Stop_step w = Some w'" by simp
  then show ?thesis using assms(3) by (rule Stop_step_lifecycle)
next
  case (AddTask_pass cpu_percent start_result target args task_name blocking inline)
  with assms(1) have sc: "stop_call w = None" by (simp split: if_splits)
  from AddTask_pass assms(2) have st: "started (pool w)" by (simp add: admitted_def)
  from AddTask_pass have ne: "e \<noteq> Call_Stop" by simp
  from assms(1) ne assms(3) st sc show ?thesis by (rule live_step_lifecycle)
next
  case (AddTask_blocked target args task_name)
  with assms(1) have sc: "stop_call w = None" by (simp split: if_splits)
  from AddTask_blocked assms(2) have st: "started (pool w)" by (simp add: admitted_def)
  from AddTask_blocked have ne: "e \<noteq> Call_Stop" by simp
  from assms(1) ne assms(3) st sc show ?thesis by (rule live_step_lifecycle)
next
  case (Worker_step k)
  with assms(1) have r: "run_step k w = Some w'" by simp
  show ?thesis
  proof (cases "started (pool w) \<and> stop_call w = None")
    case True
    then have st: "started (pool w)" and sc: "stop_call w = None" by simp_all
    from Worker_step have ne: "e \<noteq> Call_Stop" by simp
    from assms(1) ne assms(3) st sc show ?thesis by (rule live_step_lifecycle)
  next
    case False
    with assms(3) have z: "len w = 0" by (auto simp add: lifecycle_def)
    from r have "same_or_retired k w w'" by (rule run_step_effect)
    then show ?thesis using assms(3) z by (rule same_or_retired_lifecycle)
  qed
next
  case (Tick d)
  with assms(1) have "w' = w\<lparr>now := now w + d\<rparr>" by (simp split: if_splits)
  with assms(3) show ?thesis
    by (auto simp add: lifecycle_def consistent_def len_def split: option.splits stop_pc.splits)
qed

lemma run_lifecycle:
  assumes "run evs w = Some w'" and "orderly evs w" and "lifecycle w"
  shows "lifecycle w' \<and> min_threads (pool w') = min_threads (pool w)
         \<and> max_threads (pool w') = max_threads (pool w)"
  using assms
proof (induction evs arbitrary: w)
  case Nil
  then show ?case by simp
next
  case (Cons e evs)
  from Cons.prems(1) obtain u where s: "step e w = Some u" and r: "run evs u = Some w'"
    by (auto split: option.splits)
  from Cons.prems(2) s have a: "admitted e w" and o: "orderly evs u" by simp_all
  from step_lifecycle [OF s a Cons.prems(3)]
  have u: "lifecycle u" and m: "min_threads (pool u) = min_threads (pool w)"
    "max_threads (pool u) = max_threads (pool w)" by simp_all
  from Cons.IH [OF r o u] m show ?case by simp
qed

lemma init_lifecycle:
  fixes p :: "'a pool"
  assumes "init pool_names st nm min_thr max_thr cpu = Inr (p, st')"
  shows "lifecycle (world_of p st') \<and> min_threads p = min_thr
     \<and> max_threads p = (case max_thr of None \<Rightarrow> min_thr
                          | Some m \<Rightarrow> if m < min_thr then min_thr else m)"
  using assms
  by (auto simp add: init_def Let_def lifecycle_def consistent_def world_of_def len_def
      split: if_splits option.splits)

text \<open>
  C3, amended. Take a pool from its construction through any orderly run: calls of
  \<^verbatim>\<open>Start\<close> that start all their threads, passes of the admission loop and blocking
  puts of \<^verbatim>\<open>AddTask\<close> on the started pool, calls and steps of \<^verbatim>\<open>Stop\<close>, steps of
  the workers and the passing of time. In every state reached, the number of live
  workers is between \<open>min_threads\<close> and \<open>max_threads\<close> when the pool is started
  and no \<^verbatim>\<open>Stop\<close> is under way, and it is zero when the pool is not started or a
  \<^verbatim>\<open>Stop\<close> is under way. The bounds are those the constructor set. A pass of
  \<^verbatim>\<open>AddTask\<close> changes the number only when it is below \<open>max_threads\<close>, and a
  worker removes itself only when it is above \<open>min_threads\<close>.
\<close>

theorem live_workers_within_bounds:
  fixes p :: "'a pool" and w :: "'a world"
  assumes constructed: "init pool_names st nm min_thr max_thr cpu = Inr (p, st')"
    and reached: "run evs (world_of p st') = Some w"
    and in_order: "orderly evs (world_of p st')"
  shows "(started (pool w) \<and> stop_call w = None \<longrightarrow>
            min_threads (pool w) \<le> len w \<and> len w \<le> max_threads (pool w))
     \<and> (\<not> started (pool w) \<or> stop_call w \<noteq> None \<longrightarrow> len w = 0)
     \<and> min_threads (pool w) = min_thr
     \<and> max_threads (pool w) = (case max_thr of None \<Rightarrow> min_thr
                                 | Some m \<Rightarrow> if m < min_thr then min_thr else m)
     \<and> (len (snd (AddTask_try cpu_percent start_result target args task_name blocking inline w)) \<noteq> len w
          \<longrightarrow> len w < max_threads (pool w))
     \<and> (fst (RemoveFromPool k w) \<longrightarrow> min_threads (pool w) < len w)"
proof -
  from init_lifecycle [OF constructed]
  have l0: "lifecycle (world_of p st')" and m0: "min_threads p = min_thr"
    "max_threads p = (case max_thr of None \<Rightarrow> min_thr
                      | Some m \<Rightarrow> if m < min_thr then min_thr else m)"
    by simp_all
  from run_lifecycle [OF reached in_order l0]
  have l: "lifecycle w" and m: "min_threads (pool w) = min_threads p"
    "max_threads (pool w) = max_threads p"
    by (simp_all add: world_of_def)
  have grow: "len (snd (AddTask_try cpu_percent start_result target args task_name blocking inline w)) \<noteq> len w
          \<longrightarrow> len w < max_threads (pool w)"
    by (cases start_result) (auto simp add: AddTask_try_cases AddWorker_failed len_def)
  have retire: "fst (RemoveFromPool k w) \<longrightarrow> min_threads (pool w) < len w"
    by (simp add: RemoveFromPool_def)
  from l have "started (pool w) \<and> stop_call w = None \<longrightarrow>
            min_threads (pool w) \<le> len w \<and> len w \<le> max_threads (pool w)"
    and "\<not> started (pool w) \<or> stop_call w \<noteq> None \<longrightarrow> len w = 0"
    by (auto simp add: lifecycle_def)
  with m m0 grow retire show ?thesis by simp
qed

text \<open>
  C3, as stated, fails: a pool that was constructed and not yet started has no live
  worker, whatever its \<open>min_threads\<close>, and neither has a pool after \<^verbatim>\<open>Stop\<close> has
  returned.
\<close>

theorem unstarted_pool_below_min_threads:
  "init {} empty_stats ''w'' 1 None True = Inr (w_pool, w_stats)
   \<and> min_threads (pool (world_of w_pool w_stats)) = 1
   \<and> len (world_of w_pool w_stats) = 0
   \<and> \<not> (min_threads (pool (world_of w_pool w_stats)) \<le> len (world_of w_pool w_stats))
   \<and> map_option (\<lambda>w. (started (pool w), stop_call w = None, min_threads (pool w), len w))
         (run start_and_stop (world_of w_pool w_stats)) = Some (False, True, 1, 0)"
proof -
  have "map_option (\<lambda>w. (started (pool w), stop_call w = None, min_threads (pool w), len w))
         (run start_and_stop (world_of w_pool w_stats)) = Some (False, True, 1, 0)"
    by code_simp
  then show ?thesis
    by (simp add: init_def w_pool_def w_stats_def Let_def RegisterGaugeMetric_def
      RegisterCounterMetric_def RegisterEventMetric_def empty_stats_def world_of_def len_def)
qed

text \<open>
  The run has to be orderly. \<^verbatim>\<open>AddTask\<close> does not look at the \<open>started\<close> flag:
  on a pool that is not started, the pass that finds the queue full starts a worker,
  and \<^verbatim>\<open>Start\<close> then adds \<open>min_threads\<close> more without looking at the number
  there is.
\<close>

lemma AddTask_before_Start_exceeds_max_threads:
  "\<not> orderly add_before_start (world_of w_pool w_stats)
   \<and> map_option (\<lambda>w. (started (pool w), stop_call w = None, len w, max_threads (pool w)))
         (run add_before_start (world_of w_pool w_stats)) = Some (True, True, 2, 1)"
  by code_simp

theorem live_workers_within_bounds_witness:
  "init {} empty_stats ''p'' 2 (Some 5) False = Inr (p_pool, p_stats)
   \<and> orderly grow_and_retire (world_of p_pool p_stats)
   \<and> map_option len (run (Call_Start all_start # six_tasks) (world_of p_pool p_stats)) = Some 3
   \<and> (\<exists>w. run grow_and_retire (world_of p_pool p_stats) = Some w
          \<and> started (pool w) \<and> stop_call w = None \<and> len w = 2
          \<and> min_threads (pool w) = 2 \<and> max_threads (pool w) = 5)
   \<and> init {} empty_stats ''w'' 1 None True = Inr (w_pool, w_stats)
   \<and> orderly start_and_stop (world_of w_pool w_stats)
   \<and> orderly (start_and_stop @ [Call_Start all_start]) (world_of w_pool w_stats)
   \<and> (\<exists>w. run start_and_stop (world_of w_pool w_stats) = Some w
          \<and> \<not> started (pool w) \<and> len w = 0)
   \<and> (\<exists>w. run (start_and_stop @ [Call_Start all_start]) (world_of w_pool w_stats) = Some w
          \<and> started (pool w) \<and> stop_call w = None \<and> len w = 1
          \<and> min_threads (pool w) = 1 \<and> max_threads (pool w) = 1)"
proof -
  have ip: "init {} empty_stats ''p'' 2 (Some 5) False = Inr (p_pool, p_stats)"
    by (simp add: init_def p_pool_def p_stats_def Let_def RegisterGaugeMetric_def
        RegisterCounterMetric_def RegisterEventMetric_def empty_stats_def)
  have iw: "init {} empty_stats ''w'' 1 None True = Inr (w_pool, w_stats)"
    by (simp add: init_def w_pool_def w_stats_def Let_def RegisterGaugeMetric_def
        RegisterCounterMetric_def RegisterEventMetric_def empty_stats_def)
  have o1: "orderly grow_and_retire (world_of p_pool p_stats)" by code_simp
  have o2: "orderly start_and_stop (world_of w_pool w_stats)" by code_simp
  have o3: "orderly (start_and_stop @ [Call_Start all_start]) (world_of w_pool w_stats)"
    by code_simp
  have g: "map_option len (run (Call_Start all_start # six_tasks) (world_of p_pool p_stats)) = Some 3"
    by code_simp
  have "map_option (\<lambda>w. (started (pool w), stop_call w = None))
          (run grow_and_retire (world_of p_pool p_stats)) = Some (True, True)"
    by code_simp
  then obtain w1 where r1: "run grow_and_retire (world_of p_pool p_stats) = Some w1"
    and s1: "started (pool w1)" "stop_call w1 = None" by auto
  have "map_option len (run grow_and_retire (world_of p_pool p_stats)) = Some 2" by code_simp
  with r1 have l1: "len w1 = 2" by simp
  from live_workers_within_bounds [OF ip r1 o1, of 0 None succeeds 1 "''t''" True True 0] s1
  have b1: "min_threads (pool w1) = 2 \<and> max_threads (pool w1) = 5" by simp
  have "map_option (\<lambda>w. started (pool w)) (run start_and_stop (world_of w_pool w_stats)) = Some False"
    by code_simp
  then obtain w2 where r2: "run start_and_stop (world_of w_pool w_stats) = Some w2"
    and s2: "\<not> started (pool w2)" by auto
  from live_workers_within_bounds [OF iw r2 o2, of 0 None succeeds 1 "''t''" True True 0] s2
  have b2: "len w2 = 0" by simp
  have "map_option (\<lambda>w. (started (pool w), stop_call w = None))
          (run (start_and_stop @ [Call_Start all_start]) (world_of w_pool w_stats)) = Some (True, True)"
    by code_simp
  then obtain w3 where r3: "run (start_and_stop @ [Call_Start all_start]) (world_of w_pool w_stats) = Some w3"
    and s3: "started (pool w3)" "stop_call w3 = None" by auto
  from live_workers_within_bounds [OF iw r3 o3, of 0 None succeeds 1 "''t''" True True 0] s3
  have b3: "len w3 = 1 \<and> min_threads (pool w3) = 1 \<and> max_threads (pool w3) = 1" by simp
  from r1 s1 l1 b1 have e1: "\<exists>w. run grow_and_retire (world_of p_pool p_stats) = Some w
          \<and> started (pool w) \<and> stop_call w = None \<and> len w = 2
          \<and> min_threads (pool w) = 2 \<and> max_threads (pool w) = 5" by simp
  from r2 s2 b2 have e2: "\<exists>w. run start_and_stop (world_of w_pool w_stats) = Some w
          \<and> \<not> started (pool w) \<and> len w = 0" by simp
  from r3 s3 b3 have e3: "\<exists>w. run (start_and_stop @ [Call_Start all_start]) (world_of w_pool w_stats) = Some w
          \<and> started (pool w) \<and> stop_call w = None \<and> len w = 1
          \<and> min_threads (pool w) = 1 \<and> max_threads (pool w) = 1" by simp
  from ip iw o1 o2 o3 g e1 e2 e3 show ?thesis by simp
qed

subsection \<open>The steps of a worker\<close>

lemma run_step_cases [consumes 1, case_names top empty got holding stop task ack_fail ack timeout young aged]:
  assumes "run_step k w = Some w'"
  obtains
    x where "threads w k = Some x" "pc x = LoopTop"
      "w' = set_worker k (x\<lparr>idle := (if name (pool w) \<noteq> [] then True else idle x), pc := AtGet\<rparr>) w"
  | x where "threads w k = Some x" "pc x = AtGet" "elements (queue (pool w)) = []"
      "w' = set_worker k (x\<lparr>pc := AtEmpty\<rparr>) w"
  | x m ms where "threads w k = Some x" "pc x = AtGet" "elements (queue (pool w)) = m # ms"
      "w' = set_worker k (x\<lparr>pc := Holding m\<rparr>)
              (w\<lparr>pool := (pool w)\<lparr>queue := (queue (pool w))\<lparr>elements := ms\<rparr>\<rparr>\<rparr>)"
  | x m where "threads w k = Some x" "pc x = Holding m"
      "w' = set_worker k (x\<lparr>idle := (if name (pool w) \<noteq> [] then False else idle x), pc := InTry m\<rparr>) w"
  | x where "threads w k = Some x" "pc x = InTry STOP_MESSAGE"
      "w' = set_worker k (x\<lparr>pc := AtTaskDone ThenReturn\<rparr>) w"
  | x target args task_name queueing_time where "threads w k = Some x"
      "pc x = InTry (Task (target, args, task_name, queueing_time))"
      "w' = set_worker k
              (x\<lparr>pc := AtTaskDone
                 (case fst (ProcessTask target args task_name queueing_time w) of
                    None \<Rightarrow> ThenAgeCheck | Some e \<Rightarrow> ThenPropagate e)\<rparr>)
              (snd (ProcessTask target args task_name queueing_time w))"
  | x a where "threads w k = Some x" "pc x = AtTaskDone a" "unfinished_tasks (queue (pool w)) = 0"
      "w' = set_worker k (x\<lparr>pc := Exited\<rparr>) w"
  | x a where "threads w k = Some x" "pc x = AtTaskDone a" "unfinished_tasks (queue (pool w)) \<noteq> 0"
      "w' = set_worker k (x\<lparr>pc := (case a of ThenAgeCheck \<Rightarrow> AtAgeCheck | _ \<Rightarrow> Exited)\<rparr>)
              (w\<lparr>pool := (pool w)\<lparr>queue := (queue (pool w))
                 \<lparr>unfinished_tasks := unfinished_tasks (queue (pool w)) - 1\<rparr>\<rparr>\<rparr>)"
  | x where "threads w k = Some x" "pc x = AtEmpty"
      "w' = set_worker k (x\<lparr>pc := (if fst (RemoveFromPool k w) then Exited else AtAgeCheck)\<rparr>)
              (snd (RemoveFromPool k w))"
  | x where "threads w k = Some x" "pc x = AtAgeCheck" "\<not> now w - started_time x > 600"
      "w' = set_worker k (x\<lparr>pc := LoopTop\<rparr>) w"
  | x where "threads w k = Some x" "pc x = AtAgeCheck" "now w - started_time x > 600"
      "w' = set_worker k (x\<lparr>pc := (if fst (RemoveFromPool k w) then Exited else LoopTop)\<rparr>)
              (snd (RemoveFromPool k w))"
proof -
  from assms obtain x where x: "threads w k = Some x"
    by (auto simp add: run_step_def split: option.splits)
  show thesis
  proof (cases "pc x")
    case NotStarted
    with assms x show ?thesis by (simp add: run_step_def)
  next
    case LoopTop
    with assms x show ?thesis by (intro that(1) [of x]) (simp_all add: run_step_def)
  next
    case AtGet
    show ?thesis
    proof (cases "elements (queue (pool w))")
      case Nil
      with AtGet assms x show ?thesis
        by (intro that(2) [of x]) (simp_all add: run_step_def get_def)
    next
      case (Cons m ms)
      with AtGet assms x show ?thesis
        by (intro that(3) [of x m ms]) (simp_all add: run_step_def get_def)
    qed
  next
    case (Holding m)
    with assms x show ?thesis by (intro that(4) [of x m]) (simp_all add: run_step_def)
  next
    case (InTry m)
    show ?thesis
    proof (cases m)
      case STOP_MESSAGE
      with InTry assms x show ?thesis by (intro that(5) [of x]) (simp_all add: run_step_def)
    next
      case (Task t)
      obtain target args task_name queueing_time where t: "t = (target, args, task_name, queueing_time)"
        by (cases t)
      obtain r u where p: "ProcessTask target args task_name queueing_time w = (r, u)"
        by (cases "ProcessTask target args task_name queueing_time w")
      from Task InTry assms x t p show ?thesis
        by (intro that(6) [of x target args task_name queueing_time])
           (cases r; simp add: run_step_def)+
    qed
  next
    case (AtTaskDone a)
    show ?thesis
    proof (cases "unfinished_tasks (queue (pool w)) = 0")
      case True
      with AtTaskDone assms x show ?thesis
        by (intro that(7) [of x a]) (simp_all add: run_step_def task_done_def)
    next
      case False
      with AtTaskDone assms x show ?thesis
        by (intro that(8) [of x a]) (simp_all add: run_step_def task_done_def)
    qed
  next
    case AtEmpty
    obtain b u where r: "RemoveFromPool k w = (b, u)" by (cases "RemoveFromPool k w")
    with AtEmpty assms x show ?thesis
      by (intro that(9) [of x]) (cases b; simp add: run_step_def)+
  next
    case AtAgeCheck
    obtain b u where r: "RemoveFromPool k w = (b, u)" by (cases "RemoveFromPool k w")
    show ?thesis
    proof (cases "now w - started_time x > 600")
      case False
      with AtAgeCheck assms x show ?thesis
        by (intro that(10) [of x]) (simp_all add: run_step_def)
    next
      case True
      with AtAgeCheck assms x r show ?thesis
        by (intro that(11) [of x]) (cases b; simp add: run_step_def)+
    qed
  next
    case Exited
    with assms x show ?thesis by (simp add: run_step_def)
  qed
qed


lemma set_worker_frame:
  "pool (set_worker k x w) = pool w" "thread_counter (set_worker k x w) = thread_counter w"
  "STATS (set_worker k x w) = STATS w" "LOG (set_worker k x w) = LOG w"
  "now (set_worker k x w) = now w" "stop_call (set_worker k x w) = stop_call w"
  "threads (set_worker k x w) = (threads w)(k \<mapsto> x)"
  by (simp_all add: set_worker_def)

lemma RemoveFromPool_frame:
  "threads (snd (RemoveFromPool k w)) = threads w"
  "thread_counter (snd (RemoveFromPool k w)) = thread_counter w"
  "STATS (snd (RemoveFromPool k w)) = STATS w" "LOG (snd (RemoveFromPool k w)) = LOG w"
  "now (snd (RemoveFromPool k w)) = now w" "stop_call (snd (RemoveFromPool k w)) = stop_call w"
  "name (pool (snd (RemoveFromPool k w))) = name (pool w)"
  "queue (pool (snd (RemoveFromPool k w))) = queue (pool w)"
  "min_threads (pool (snd (RemoveFromPool k w))) = min_threads (pool w)"
  "max_threads (pool (snd (RemoveFromPool k w))) = max_threads (pool w)"
  by (simp_all add: RemoveFromPool_def RemoveWorker_def Let_def)

subsection \<open>busy_threads of an unnamed pool\<close>

lemma AddWorker_all_idle: "all_idle w \<Longrightarrow> all_idle (snd (AddWorker r w))"
  by (cases r) (auto simp add: AddWorker_def WorkerThread_init_def Let_def all_idle_def)

lemma Start_loop_all_idle: "all_idle w \<Longrightarrow> all_idle (snd (Start_loop n spawn i w))"
proof (induction n arbitrary: i w)
  case 0
  then show ?case by simp
next
  case (Suc n)
  obtain r u where a: "AddWorker (spawn i) w = (r, u)" by (cases "AddWorker (spawn i) w")
  from Suc.prems have u: "all_idle u" using AddWorker_all_idle [of w "spawn i"] a by simp
  show ?case
  proof (cases r)
    case None
    with a Suc.IH [OF u] show ?thesis by simp
  next
    case (Some e)
    with a u show ?thesis by simp
  qed
qed

lemma run_step_all_idle:
  assumes "run_step k w = Some w'" and "all_idle w"
  shows "all_idle w'"
  using assms
  by (cases rule: run_step_cases)
     (auto simp add: all_idle_def set_worker_frame RemoveFromPool_frame ProcessTask_frame)

lemma AddTask_try_all_idle:
  "all_idle w \<Longrightarrow>
   all_idle (snd (AddTask_try cpu_percent start_result target args task_name blocking inline w))"
  using AddWorker_all_idle [of w start_result]
  by (cases start_result) (auto simp add: AddTask_try_cases all_idle_def)

lemma step_all_idle:
  assumes "step e w = Some w'" and "all_idle w"
  shows "all_idle w'"
proof (cases e)
  case (Call_Start spawn)
  with assms(1) have "w' = snd (Start spawn w)" by (simp split: if_splits)
  moreover from assms(2) have "all_idle (w\<lparr>pool := (pool w)\<lparr>started := True\<rparr>\<rparr>)"
    by (simp add: all_idle_def)
  ultimately show ?thesis using assms(2)
    by (simp add: Start_def Start_loop_all_idle)
next
  case Call_Stop
  with assms show ?thesis by (auto simp add: Stop_enter_def all_idle_def split: if_splits)
next
  case Stop_continues
  with assms show ?thesis
    by (auto simp add: Stop_step_def all_idle_def split: option.splits stop_pc.splits nat.splits if_splits)
next
  case (AddTask_pass cpu_percent start_result target args task_name blocking inline)
  with assms show ?thesis by (auto simp add: AddTask_try_all_idle split: if_splits)
next
  case (AddTask_blocked target args task_name)
  with assms show ?thesis
    by (auto simp add: AddTask_blocking_put_def all_idle_def split: if_splits option.splits)
next
  case (Worker_step k)
  with assms show ?thesis by (simp add: run_step_all_idle)
next
  case (Tick d)
  with assms show ?thesis by (auto simp add: all_idle_def split: if_splits)
qed

lemma run_all_idle: "run evs w = Some w' \<Longrightarrow> all_idle w \<Longrightarrow> all_idle w'"
proof (induction evs arbitrary: w)
  case Nil
  then show ?case by simp
next
  case (Cons e evs)
  from Cons.prems(1) obtain u where s: "step e w = Some u" and r: "run evs u = Some w'"
    by (auto split: option.splits)
  from s Cons.prems(2) have "all_idle u" by (rule step_all_idle)
  with r show ?case by (rule Cons.IH)
qed

text \<open>
  C10. In every state a pool with the empty name reaches, from a state in which all
  its thread objects are idle (as after construction, when there are none),
  \<open>busy_threads\<close> is 0: every thread object is created idle, and no step of an
  unnamed pool clears the flag, not even while the worker executes a task.
\<close>

theorem unnamed_pool_never_busy:
  assumes "name (pool w0) = []"
    and "\<forall>k x. threads w0 k = Some x \<longrightarrow> idle x"
    and "run evs w0 = Some w"
  shows "busy_threads w = 0 \<and> (\<forall>k x. threads w k = Some x \<longrightarrow> idle x)
    \<and> idle (WorkerThread_init w)"
proof -
  from assms(1,2) have "all_idle w0" by (simp add: all_idle_def)
  with assms(3) have "all_idle w" by (rule run_all_idle)
  then have i: "\<forall>k x. threads w k = Some x \<longrightarrow> idle x" by (simp add: all_idle_def)
  then have "filter (\<lambda>k. case threads w k of Some x \<Rightarrow> \<not> idle x | None \<Rightarrow> False)
       (workers_ro_copy (pool w)) = []"
    by (auto simp add: filter_empty_conv split: option.splits)
  then have "busy_threads w = 0" by (simp add: busy_threads_def)
  with i show ?thesis by (simp add: WorkerThread_init_def)
qed

theorem unnamed_pool_never_busy_witness:
  "name (pool (world_of unnamed_pool empty_stats)) = []
   \<and> threads (world_of unnamed_pool empty_stats) = Map.empty
   \<and> map_option (\<lambda>w. executing w 0) (run worker_takes_task (world_of unnamed_pool empty_stats))
        = Some True
   \<and> map_option busy_threads (run worker_takes_task (world_of unnamed_pool empty_stats)) = Some 0
   \<and> map_option busy_threads (run worker_takes_task (world_of w_pool w_stats)) = Some 1
   \<and> (\<exists>w. run worker_takes_task (world_of unnamed_pool empty_stats) = Some w
          \<and> executing w 0 \<and> busy_threads w = 0)"
proof -
  let ?w0 = "world_of unnamed_pool empty_stats"
  have n: "name (pool ?w0) = []" and t: "threads ?w0 = Map.empty"
    by (simp_all add: world_of_def unnamed_pool_def)
  from t have i: "\<forall>k x. threads ?w0 k = Some x \<longrightarrow> idle x" by simp
  have e: "map_option (\<lambda>w. executing w 0) (run worker_takes_task ?w0) = Some True" by code_simp
  have b: "map_option busy_threads (run worker_takes_task ?w0) = Some 0" by code_simp
  have c: "map_option busy_threads (run worker_takes_task (world_of w_pool w_stats)) = Some 1"
    by code_simp
  from e obtain w where w: "run worker_takes_task ?w0 = Some w" and x: "executing w 0" by auto
  from unnamed_pool_never_busy [OF n i w] have "busy_threads w = 0" by simp
  with w x have "\<exists>w. run worker_takes_task ?w0 = Some w \<and> executing w 0 \<and> busy_threads w = 0"
    by blast
  with n t e b c show ?thesis by simp
qed

subsection \<open>A pool with max_threads = 0\<close>

lemma init_max_threads_zero:
  fixes p :: "'a pool"
  assumes "init names st nm min_thr max_thr cpu = Inr (p, st')" and "max_threads p = 0"
  shows "min_threads p = 0" and "without_workers 0 (world_of p st')" and "queue p = Queue_init 0"
proof -
  let ?m = "case max_thr of None \<Rightarrow> min_thr | Some m \<Rightarrow> if m < min_thr then min_thr else m"
  from assms(1) have p: "p = \<lparr>name = nm, min_threads = min_thr, max_threads = ?m, cpu_check = cpu,
               queue = Queue_init ?m, started = False, workers = [], workers_ro_copy = []\<rparr>"
    by (auto simp add: init_def Let_def split: if_splits)
  with assms(2) have m: "?m = 0" by simp
  then have z: "min_thr = 0" by (cases max_thr) (auto split: if_splits)
  from p z show "min_threads p = 0" by simp
  from p m show "queue p = Queue_init 0" by simp
  from p m z show "without_workers 0 (world_of p st')"
    by (simp add: without_workers_def world_of_def)
qed

lemma step_without_workers:
  assumes "step e w = Some w'" and "without_workers n w"
  shows "without_workers n w'"
proof (cases e)
  case (Call_Start spawn)
  with assms show ?thesis
    by (auto simp add: Start_def without_workers_def split: if_splits)
next
  case Call_Stop
  with assms show ?thesis
    by (auto simp add: Stop_enter_def without_workers_def split: if_splits)
next
  case Stop_continues
  with assms show ?thesis
    by (auto simp add: Stop_step_def without_workers_def put_nowait_def
        split: option.splits stop_pc.splits nat.splits if_splits)
next
  case (AddTask_pass cpu_percent start_result target args task_name blocking inline)
  with assms show ?thesis by (auto simp add: without_workers_def split: if_splits)
next
  case (AddTask_blocked target args task_name)
  with assms show ?thesis by (auto simp add: without_workers_def split: if_splits)
next
  case (Worker_step k)
  with assms show ?thesis by (auto simp add: run_step_def without_workers_def)
next
  case (Tick d)
  with assms show ?thesis by (auto simp add: without_workers_def split: if_splits)
qed

lemma run_without_workers:
  "run evs w = Some w' \<Longrightarrow> without_workers n w \<Longrightarrow> without_workers n w'"
proof (induction evs arbitrary: w)
  case Nil
  then show ?case by simp
next
  case (Cons e evs)
  from Cons.prems(1) obtain u where s: "step e w = Some u" and r: "run evs u = Some w'"
    by (auto split: option.splits)
  from s Cons.prems(2) have "without_workers n u" by (rule step_without_workers)
  with r show ?case by (rule Cons.IH)
qed

lemma Stop_without_workers:
  assumes "without_workers n w" and "started (pool w)" and "stop_call w = None"
  shows "run [Call_Stop, Stop_continues, Stop_continues, Stop_continues] w
           = Some (w\<lparr>pool := (pool w)\<lparr>started := False\<rparr>\<rparr>)"
proof -
  from assms have ws: "workers (pool w) = []" "workers_ro_copy (pool w) = []"
    and q: "queue (pool w) = Queue_init 0"
    by (simp_all add: without_workers_def)
  have a: "step Call_Stop w = Some (w\<lparr>stop_call := Some (Pushing [] 0)\<rparr>)"
    using assms(2,3) ws by (simp add: Stop_enter_def)
  have b: "step Stop_continues (w\<lparr>stop_call := Some (Pushing [] 0)\<rparr>)
      = Some (w\<lparr>pool := (pool w)\<lparr>started := False\<rparr>, stop_call := Some (Joining [])\<rparr>)"
    by (simp add: Stop_step_def)
  have c: "step Stop_continues (w\<lparr>pool := (pool w)\<lparr>started := False\<rparr>, stop_call := Some (Joining [])\<rparr>)
      = Some (w\<lparr>pool := (pool w)\<lparr>started := False\<rparr>, stop_call := Some (JoiningWorkers [])\<rparr>)"
    using q by (simp add: Stop_step_def join_returns_def Queue_init_def)
  have d: "step Stop_continues (w\<lparr>pool := (pool w)\<lparr>started := False\<rparr>, stop_call := Some (JoiningWorkers [])\<rparr>)
      = Some (w\<lparr>pool := (pool w)\<lparr>started := False\<rparr>, stop_call := None\<rparr>)"
    by (simp add: Stop_step_def)
  have e: "w\<lparr>pool := (pool w)\<lparr>started := False\<rparr>, stop_call := None\<rparr>
      = w\<lparr>pool := (pool w)\<lparr>started := False\<rparr>\<rparr>"
    using assms(3) by simp
  from a b c d e show ?thesis by simp
qed

text \<open>
  C8. A pool constructed with \<open>max_threads = 0\<close> has \<open>min_threads = 0\<close>, and in
  every state it reaches: \<^verbatim>\<open>AddTask\<close>, whatever its flags, runs the target on the
  caller and leaves the state as it is, queue and workers included; there are no
  workers and no thread objects; \<^verbatim>\<open>Start\<close> only sets the flag \<open>started\<close>; and
  \<^verbatim>\<open>Stop\<close> on the started pool puts no stop message, waits for nothing and only
  clears the flag.
\<close>

theorem max_threads_zero_runs_inline:
  fixes p :: "'a pool"
  assumes "init names st nm min_thr max_thr cpu = Inr (p, st')"
    and "max_threads p = 0"
    and "run evs (world_of p st') = Some w"
  shows "min_threads p = 0
    \<and> AddTask sched target args task_name blocking inline w = Some ((target args, True), w)
    \<and> workers (pool w) = [] \<and> workers_ro_copy (pool w) = [] \<and> len w = 0
    \<and> threads w = Map.empty \<and> thread_counter w = 0
    \<and> queue (pool w) = queue p
    \<and> Start spawn w = (None, if started (pool w) then w else w\<lparr>pool := (pool w)\<lparr>started := True\<rparr>\<rparr>)
    \<and> (started (pool w) \<and> stop_call w = None \<longrightarrow>
          run [Call_Stop, Stop_continues, Stop_continues, Stop_continues] w
            = Some (w\<lparr>pool := (pool w)\<lparr>started := False\<rparr>\<rparr>))"
proof -
  note i = init_max_threads_zero [OF assms(1,2)]
  from assms(3) i(2) have n: "without_workers 0 w" by (rule run_without_workers)
  then have m: "max_threads (pool w) = 0" and z: "min_threads (pool w) = 0"
    and ws: "workers (pool w) = []" "workers_ro_copy (pool w) = []"
    and t: "threads w = Map.empty" "thread_counter w = 0"
    and q: "queue (pool w) = Queue_init 0"
    by (simp_all add: without_workers_def)
  from m have a: "AddTask sched target args task_name blocking inline w = Some ((target args, True), w)"
    by (simp add: AddTask_def)
  from z have s: "Start spawn w
      = (None, if started (pool w) then w else w\<lparr>pool := (pool w)\<lparr>started := True\<rparr>\<rparr>)"
    by (simp add: Start_def)
  from n have st: "started (pool w) \<and> stop_call w = None \<longrightarrow>
          run [Call_Stop, Stop_continues, Stop_continues, Stop_continues] w
            = Some (w\<lparr>pool := (pool w)\<lparr>started := False\<rparr>\<rparr>)"
    using Stop_without_workers [of 0 w] by blast
  from i(1) i(3) a ws t q s st show ?thesis by (simp add: len_def)
qed

lemma serial_pool_init:
  "init {} empty_stats ''batch_processor'' 0 None True = Inr (serial_pool, serial_stats)"
  by (simp add: init_def serial_pool_def serial_stats_def Let_def RegisterGaugeMetric_def
      RegisterCounterMetric_def RegisterEventMetric_def empty_stats_def)

theorem max_threads_zero_runs_inline_witness:
  "init {} empty_stats ''batch_processor'' 0 None True = Inr (serial_pool, serial_stats)
   \<and> max_threads serial_pool = 0
   \<and> map_option len (run start_add_stop (world_of serial_pool serial_stats)) = Some 0
   \<and> map_option (\<lambda>w. started (pool w)) (run start_add_stop (world_of serial_pool serial_stats))
        = Some True
   \<and> (\<exists>w. run start_add_stop (world_of serial_pool serial_stats) = Some w
          \<and> AddTask [] succeeds 1 ''t'' False False w = Some ((None, True), w)
          \<and> workers (pool w) = [] \<and> threads w = Map.empty)"
proof -
  let ?w0 = "world_of serial_pool serial_stats"
  have m: "max_threads serial_pool = 0" by (simp add: serial_pool_def)
  have l: "map_option len (run start_add_stop ?w0) = Some 0" by code_simp
  have s: "map_option (\<lambda>w. started (pool w)) (run start_add_stop ?w0) = Some True" by code_simp
  from l obtain w where w: "run start_add_stop ?w0 = Some w" by auto
  from max_threads_zero_runs_inline [OF serial_pool_init m w, of "[]" succeeds 1 "''t''" False False]
  have "AddTask [] succeeds 1 ''t'' False False w = Some ((None, True), w)
          \<and> workers (pool w) = [] \<and> threads w = Map.empty"
    by (simp add: succeeds_def)
  with w have "\<exists>w. run start_add_stop ?w0 = Some w
          \<and> AddTask [] succeeds 1 ''t'' False False w = Some ((None, True), w)
          \<and> workers (pool w) = [] \<and> threads w = Map.empty"
    by blast
  with serial_pool_init m l s show ?thesis by simp
qed

subsection \<open>Exceptions of tasks\<close>

lemma ProcessTask_contained:
  assumes "returns_or_raises_Exception (target, args, task_name, queueing_time)"
  shows "fst (ProcessTask target args task_name queueing_time w) = None"
    and "LOG (snd (ProcessTask target args task_name queueing_time w)) =
           LOG w @ map caught_entry (filter task_raises [(target, args, task_name, queueing_time)])"
    and "name (pool w) \<noteq> [] \<Longrightarrow>
           counter (STATS (snd (ProcessTask target args task_name queueing_time w)))
               (name (pool w) @ ''_task_exceptions'')
             = counter (STATS w) (name (pool w) @ ''_task_exceptions'')
                 + length (filter task_raises [(target, args, task_name, queueing_time)])"
    and "name (pool w) \<noteq> [] \<Longrightarrow>
           length (samples (STATS (snd (ProcessTask target args task_name queueing_time w)))
               (name (pool w) @ ''_working_time''))
             = length (samples (STATS w) (name (pool w) @ ''_working_time'')) + 1"
    and "name (pool w) = [] \<Longrightarrow>
           STATS (snd (ProcessTask target args task_name queueing_time w)) = STATS w"
  using assms
  by (auto simp add: ProcessTask_def Let_def returns_or_raises_Exception_def task_raises_def
      caught_entry_def IncrementCounter_def RecordEvent_def split: option.splits)


lemma metrics_after_same:
  "name (pool w') = name (pool w) \<Longrightarrow> STATS w' = STATS w \<Longrightarrow>
   exception_entries (LOG w') = exception_entries (LOG w) \<Longrightarrow> metrics_after w [] w'"
  by (simp add: metrics_after_def)

lemma metrics_after_trans:
  "metrics_after w ts u \<Longrightarrow> metrics_after u ts' w' \<Longrightarrow> metrics_after w (ts @ ts') w'"
  by (auto simp add: metrics_after_def)

lemma metrics_after_set_worker:
  "metrics_after w ts u \<Longrightarrow> metrics_after w ts (set_worker k x u)"
  by (simp add: metrics_after_def set_worker_frame)

lemma AddWorker_metrics:
  "name (pool (snd (AddWorker r w))) = name (pool w)"
  "STATS (snd (AddWorker r w)) = STATS w" "LOG (snd (AddWorker r w)) = LOG w"
  by (cases r; simp add: AddWorker_def Let_def)+

lemma Start_loop_metrics:
  "name (pool (snd (Start_loop n spawn i w))) = name (pool w)
   \<and> STATS (snd (Start_loop n spawn i w)) = STATS w \<and> LOG (snd (Start_loop n spawn i w)) = LOG w"
proof (induction n arbitrary: i w)
  case 0
  show ?case by simp
next
  case (Suc n)
  obtain r u where a: "AddWorker (spawn i) w = (r, u)" by (cases "AddWorker (spawn i) w")
  with AddWorker_metrics [of "spawn i" w]
  have u: "name (pool u) = name (pool w)" "STATS u = STATS w" "LOG u = LOG w" by simp_all
  show ?case
  proof (cases r)
    case None
    with a u Suc.IH [of "Suc i" u] show ?thesis by simp
  next
    case (Some e)
    with a u show ?thesis by simp
  qed
qed

lemma run_step_metrics:
  assumes "run_step k w = Some w'"
    and "\<forall>t \<in> set (executes (Worker_step k) w). returns_or_raises_Exception t"
  shows "metrics_after w (executes (Worker_step k) w) w'"
  using assms
proof (cases rule: run_step_cases)
  case (task x target args task_name queueing_time)
  then have e: "executes (Worker_step k) w = [(target, args, task_name, queueing_time)]"
    by (simp add: executes_def)
  with assms(2) have c: "returns_or_raises_Exception (target, args, task_name, queueing_time)"
    by simp
  have "metrics_after w [(target, args, task_name, queueing_time)]
      (snd (ProcessTask target args task_name queueing_time w))"
    using ProcessTask_contained [OF c, of w]
    by (auto simp add: metrics_after_def ProcessTask_frame exception_entries_def caught_entry_def)
  with task e show ?thesis by (simp add: metrics_after_set_worker)
qed (simp_all add: executes_def metrics_after_same metrics_after_set_worker
       set_worker_frame RemoveFromPool_frame)

lemma step_metrics:
  assumes "step e w = Some w'"
    and "\<forall>t \<in> set (executes e w). returns_or_raises_Exception t"
  shows "metrics_after w (executes e w) w'"
proof (cases e)
  case (Call_Start spawn)
  with assms(1) have "w' = snd (Start spawn w)" by (simp split: if_splits)
  with Start_loop_metrics [of "min_threads (pool w)" spawn 0 "w\<lparr>pool := (pool w)\<lparr>started := True\<rparr>\<rparr>"]
  have "name (pool w') = name (pool w) \<and> STATS w' = STATS w \<and> LOG w' = LOG w"
    by (simp add: Start_def)
  with Call_Start show ?thesis by (simp add: executes_def metrics_after_same)
next
  case Call_Stop
  with assms(1) show ?thesis
    by (auto simp add: executes_def Stop_enter_def exception_entries_def
        intro!: metrics_after_same split: if_splits)
next
  case Stop_continues
  with assms(1) show ?thesis
    by (auto simp add: executes_def Stop_step_def
        intro!: metrics_after_same split: option.splits stop_pc.splits nat.splits if_splits)
next
  case (AddTask_pass cpu_percent start_result target args task_name blocking inline)
  have "name (pool (snd (AddTask_try cpu_percent start_result target args task_name
            (if inline then False else blocking) inline w))) = name (pool w)
     \<and> STATS (snd (AddTask_try cpu_percent start_result target args task_name
            (if inline then False else blocking) inline w)) = STATS w
     \<and> exception_entries (LOG (snd (AddTask_try cpu_percent start_result target args task_name
            (if inline then False else blocking) inline w))) = exception_entries (LOG w)"
    by (cases start_result)
       (auto simp add: AddTask_try_cases AddWorker_metrics exception_entries_def)
  with AddTask_pass assms(1) show ?thesis
    by (auto simp add: executes_def intro!: metrics_after_same split: if_splits)
next
  case (AddTask_blocked target args task_name)
  with assms(1) show ?thesis
    by (auto simp add: executes_def AddTask_blocking_put_def
        intro!: metrics_after_same split: if_splits option.splits)
next
  case (Worker_step k)
  with assms show ?thesis by (simp add: run_step_metrics)
next
  case (Tick d)
  with assms(1) show ?thesis
    by (auto simp add: executes_def intro!: metrics_after_same split: if_splits)
qed

lemma run_metrics:
  assumes "run evs w = Some w'"
    and "\<forall>t \<in> set (executed evs w). returns_or_raises_Exception t"
  shows "metrics_after w (executed evs w) w'"
  using assms
proof (induction evs arbitrary: w)
  case Nil
  then show ?case by (simp add: metrics_after_same)
next
  case (Cons e evs)
  from Cons.prems(1) obtain u where s: "step e w = Some u" and r: "run evs u = Some w'"
    by (auto split: option.splits)
  from s have ex: "executed (e # evs) w = executes e w @ executed evs u" by simp
  from Cons.prems(2) have "\<forall>t \<in> set (executes e w @ executed evs u). returns_or_raises_Exception t"
    by (simp only: ex)
  then have a: "\<forall>t \<in> set (executes e w). returns_or_raises_Exception t"
    and b: "\<forall>t \<in> set (executed evs u). returns_or_raises_Exception t" by auto
  from s a have "metrics_after w (executes e w) u" by (rule step_metrics)
  moreover from r b have "metrics_after u (executed evs u) w'" by (rule Cons.IH)
  ultimately show ?case unfolding ex by (rule metrics_after_trans)
qed

text \<open>
  The workers contain the exceptions of their tasks. When every task that the workers
  execute in a run returns or raises an instance of \<^verbatim>\<open>Exception\<close>, nothing leaves
  \<^verbatim>\<open>ProcessTask\<close> and every raising task is logged at exception level with its
  name; in a named pool, after a run in which the workers executed \<open>N\<close> tasks of
  which \<open>K\<close> raised, the counter \<open>_task_exceptions\<close> has grown by \<open>K\<close> and
  \<open>_working_time\<close> has \<open>N\<close> more samples.
\<close>

lemma workers_contain_task_exceptions:
  assumes "run evs w0 = Some w"
    and "\<forall>t \<in> set (executed evs w0). returns_or_raises_Exception t"
  shows "exception_entries (LOG w)
           = exception_entries (LOG w0) @ map caught_entry (filter task_raises (executed evs w0))
     \<and> (name (pool w0) \<noteq> [] \<longrightarrow>
          counter (STATS w) (name (pool w0) @ ''_task_exceptions'')
            = counter (STATS w0) (name (pool w0) @ ''_task_exceptions'')
                + length (filter task_raises (executed evs w0))
          \<and> length (samples (STATS w) (name (pool w0) @ ''_working_time''))
            = length (samples (STATS w0) (name (pool w0) @ ''_working_time''))
                + length (executed evs w0))
     \<and> (\<forall>target args task_name queueing_time u.
           returns_or_raises_Exception (target, args, task_name, queueing_time) \<longrightarrow>
             fst (ProcessTask target args task_name queueing_time u) = None)"
proof -
  from assms(1,2) have "metrics_after w0 (executed evs w0) w" by (rule run_metrics)
  then show ?thesis
    by (simp add: metrics_after_def ProcessTask_contained)
qed

lemma workers_contain_task_exceptions_example:
  "name (pool (world_of w_pool w_stats)) = ''w''
   \<and> list_all returns_or_raises_Exception
         (executed three_tasks_one_raises (world_of w_pool w_stats))
   \<and> length (executed three_tasks_one_raises (world_of w_pool w_stats)) = 3
   \<and> length (filter task_raises (executed three_tasks_one_raises (world_of w_pool w_stats))) = 1
   \<and> (\<exists>w. run three_tasks_one_raises (world_of w_pool w_stats) = Some w
         \<and> counter (STATS w) ''w_task_exceptions'' = 1
         \<and> length (samples (STATS w) ''w_working_time'') = 3
         \<and> LOG w = [(EXCEPTION, ''Caught exception in worker thread (%s): %s'', [''b'', ''boom''])])"
proof -
  let ?w0 = "world_of w_pool w_stats"
  have n: "name (pool ?w0) = ''w''" by (simp add: world_of_def w_pool_def)
  then have nn: "name (pool ?w0) \<noteq> []" by simp
  have c: "\<forall>t \<in> set (executed three_tasks_one_raises ?w0). returns_or_raises_Exception t"
    by code_simp
  have l: "length (executed three_tasks_one_raises ?w0) = 3" by code_simp
  have k: "length (filter task_raises (executed three_tasks_one_raises ?w0)) = 1" by code_simp
  have z: "counter (STATS ?w0) ''w_task_exceptions'' = 0"
    "samples (STATS ?w0) ''w_working_time'' = []"
    by (simp_all add: world_of_def w_stats_def empty_stats_def)
  have g: "map_option LOG (run three_tasks_one_raises ?w0)
      = Some [(EXCEPTION, ''Caught exception in worker thread (%s): %s'', [''b'', ''boom''])]"
    by code_simp
  then obtain w where w: "run three_tasks_one_raises ?w0 = Some w"
    and lg: "LOG w = [(EXCEPTION, ''Caught exception in worker thread (%s): %s'', [''b'', ''boom''])]"
    by auto
  from workers_contain_task_exceptions [OF w c] nn n l k z
  have "counter (STATS w) ''w_task_exceptions'' = 1
         \<and> length (samples (STATS w) ''w_working_time'') = 3"
    by auto
  with w lg have "\<exists>w. run three_tasks_one_raises ?w0 = Some w
         \<and> counter (STATS w) ''w_task_exceptions'' = 1
         \<and> length (samples (STATS w) ''w_working_time'') = 3
         \<and> LOG w = [(EXCEPTION, ''Caught exception in worker thread (%s): %s'', [''b'', ''boom''])]"
    by blast
  with n c l k show ?thesis by (simp add: list_all_iff)
qed

text \<open>
  C2. The claim asks that no exception of a task leaves the pool and that every task
  that raises is counted, timed and logged. The code does not do so for a task that
  \<^verbatim>\<open>AddTask\<close> runs on the caller's thread, be it on a pool with \<open>max_threads = 0\<close>
  (line 365) or as the inline fallback of a saturated pool (line 411): the call of the
  target stands outside any \<^verbatim>\<open>try\<close>, so the exception reaches the caller of
  \<^verbatim>\<open>AddTask\<close>, the counter stays at 0, no working-time sample is recorded and
  nothing is logged. The comment of line 438 says that the pool cannot raise from a
  task, and the workers do contain, count and log. In a worker, \<^verbatim>\<open>except Exception\<close>
  does not catch a raised object that is no instance of \<^verbatim>\<open>Exception\<close>, although the
  comment of lines 103 to 105 has every error caught: it leaves \<^verbatim>\<open>ProcessTask\<close>
  uncounted, unlogged and without a working-time sample.
\<close>

theorem inline_task_exception_reaches_caller:
  "observed ''batch_processor''
       (AddTask [] fails 1 ''t'' True True (world_of serial_pool serial_stats))
     = Some (Some (Exception ''boom''), True, 0, 0, [])
   \<and> observed ''w'' (AddTask [quiet] fails 3 ''third'' True True saturated_world)
     = Some (Some (Exception ''boom''), True, 0, 0, [])
   \<and> observed ''w''
       (Some ((fst (ProcessTask exits 1 ''t'' 0 saturated_world), False),
              snd (ProcessTask exits 1 ''t'' 0 saturated_world)))
     = Some (Some (BaseException ''SystemExit''), False, 0, 0, [])"
  by code_simp

subsection \<open>The stop message and the counter of unfinished tasks\<close>

lemma count_update:
  assumes "k < n"
  shows "length (filter (f(k := b)) [0 ..< n]) + (if f k then 1 else 0)
           = length (filter f [0 ..< n]) + (if b then 1 else 0)"
proof -
  from assms have "[0 ..< k + (n - k)] = [0 ..< k] @ [k ..< k + (n - k)]"
    by (intro upt_add_eq_append) simp
  with assms have "[0 ..< n] = [0 ..< k] @ [k ..< n]" by simp
  with assms have split: "[0 ..< n] = [0 ..< k] @ k # [Suc k ..< n]"
    by (simp add: upt_conv_Cons)
  have a: "\<And>v. filter (f(k := v)) [0 ..< k] = filter f [0 ..< k]"
    by (rule filter_cong) auto
  have c: "\<And>v. filter (f(k := v)) [Suc k ..< n] = filter f [Suc k ..< n]"
    by (rule filter_cong) auto
  show ?thesis unfolding split by (simp add: a c)
qed

lemma holds_message_set_worker:
  "holds_message (set_worker k y u) = (holds_message u)(k := holds_message (set_worker k y u) k)"
  by (rule ext) (simp add: holds_message_def set_worker_def)


lemma in_flight_set_worker:
  assumes "k < thread_counter u"
  shows "in_flight (set_worker k y u) + (if holds_message u k then 1 else 0)
           = in_flight u + (if holds_message (set_worker k y u) k then 1 else 0)"
proof -
  have "in_flight (set_worker k y u)
      = length (filter ((holds_message u)(k := holds_message (set_worker k y u) k))
          [0 ..< thread_counter u])"
    using holds_message_set_worker [of k y u] by (simp add: in_flight_def set_worker_frame)
  with count_update [OF assms, of "holds_message u" "holds_message (set_worker k y u) k"]
  show ?thesis by (simp add: in_flight_def)
qed

lemma in_flight_positive:
  assumes "k < thread_counter w" and "holds_message w k"
  shows "0 < in_flight w"
proof -
  from assms have "filter (holds_message w) [0 ..< thread_counter w] \<noteq> []"
    by (auto simp add: filter_empty_conv)
  then show ?thesis by (simp add: in_flight_def)
qed

lemma in_flight_frame:
  assumes "threads w' = threads w" and "thread_counter w' = thread_counter w"
  shows "in_flight w' = in_flight w"
proof -
  from assms(1) have "holds_message w' = holds_message w"
    by (intro ext) (simp add: holds_message_def)
  with assms(2) show ?thesis by (simp add: in_flight_def)
qed

lemma accounted_frame:
  assumes "accounted w" and "threads w' = threads w" and "thread_counter w' = thread_counter w"
    and "queue (pool w') = queue (pool w)"
  shows "accounted w'"
  using assms in_flight_frame [OF assms(2,3)] by (simp add: accounted_def)

lemma accounted_put:
  assumes "accounted w" and "put_nowait m (queue (pool w)) = Some q"
    and "threads w' = threads w" and "thread_counter w' = thread_counter w"
    and "queue (pool w') = q"
  shows "accounted w'"
proof -
  from assms(2) have "unfinished_tasks q = Suc (unfinished_tasks (queue (pool w)))"
    and "qsize q = Suc (qsize (queue (pool w)))"
    by (auto simp add: put_nowait_def qsize_def split: if_splits)
  with assms in_flight_frame [OF assms(3,4)] show ?thesis by (simp add: accounted_def)
qed

lemma AddWorker_accounted:
  assumes "accounted w"
  shows "accounted (snd (AddWorker r w))"
proof -
  let ?n = "thread_counter w"
  let ?u = "snd (AddWorker r w)"
  have tc: "thread_counter ?u = Suc ?n" by (cases r) (simp_all add: AddWorker_def Let_def)
  have q: "queue (pool ?u) = queue (pool w)" by (cases r) (simp_all add: AddWorker_def Let_def)
  from assms have dom: "\<forall>k x. threads w k = Some x \<longrightarrow> k < ?n" by (simp add: accounted_def)
  then have none: "threads w ?n = None" by (cases "threads w ?n") auto
  have new: "\<not> holds_message ?u ?n"
    by (cases r) (simp_all add: AddWorker_def Let_def holds_message_def WorkerThread_init_def)
  have old: "\<And>k. k < ?n \<Longrightarrow> holds_message ?u k = holds_message w k"
    by (cases r) (simp_all add: AddWorker_def Let_def holds_message_def)
  have "filter (holds_message ?u) [0 ..< ?n] = filter (holds_message w) [0 ..< ?n]"
    by (rule filter_cong) (simp_all add: old)
  with new tc have f: "in_flight ?u = in_flight w" by (simp add: in_flight_def)
  have d: "\<forall>k x. threads ?u k = Some x \<longrightarrow> k < Suc ?n"
    using dom by (cases r) (auto simp add: AddWorker_def Let_def less_Suc_eq split: if_splits)
  from assms f q d tc show ?thesis by (simp add: accounted_def)
qed


lemma accounted_set_worker:
  assumes "accounted w" and "threads w k = Some x"
    and "threads u = threads w" and "thread_counter u = thread_counter w"
    and "unfinished_tasks (queue (pool u)) + (if holds_message w k then 1 else 0)
           + qsize (queue (pool w))
         = unfinished_tasks (queue (pool w)) + (if holds_message (set_worker k y u) k then 1 else 0)
           + qsize (queue (pool u))"
  shows "accounted (set_worker k y u)"
proof -
  from assms(1,2) have k: "k < thread_counter w" by (simp add: accounted_def)
  with assms(4) have ku: "k < thread_counter u" by simp
  from assms(3) have hu: "holds_message u k = holds_message w k" by (simp add: holds_message_def)
  from assms(3,4) have fu: "in_flight u = in_flight w" by (rule in_flight_frame)
  from in_flight_set_worker [OF ku, of y] hu fu
  have f: "in_flight (set_worker k y u) + (if holds_message w k then 1 else 0)
           = in_flight w + (if holds_message (set_worker k y u) k then 1 else 0)" by simp
  from assms(1) have a: "unfinished_tasks (queue (pool w)) = qsize (queue (pool w)) + in_flight w"
    by (simp add: accounted_def)
  from a f assms(5)
  have "unfinished_tasks (queue (pool u)) = qsize (queue (pool u)) + in_flight (set_worker k y u)"
    by (simp split: if_splits)
  moreover from assms(1,2,3,4) k
  have "\<forall>j z. threads (set_worker k y u) j = Some z \<longrightarrow> j < thread_counter (set_worker k y u)"
    by (auto simp add: accounted_def set_worker_frame)
  ultimately show ?thesis by (simp add: accounted_def set_worker_frame)
qed

lemma run_step_accounted:
  assumes "run_step k w = Some w'" and "accounted w"
  shows "accounted w'"
  using assms(1)
proof (cases rule: run_step_cases)
  case (top x)
  show ?thesis unfolding top(3)
    using assms(2) top
    by (intro accounted_set_worker [of w k x])
       (simp_all add: holds_message_def set_worker_def)
next
  case (empty x)
  show ?thesis unfolding empty(4)
    using assms(2) empty
    by (intro accounted_set_worker [of w k x])
       (simp_all add: holds_message_def set_worker_def)
next
  case (got x m ms)
  show ?thesis unfolding got(4)
    using assms(2) got
    by (intro accounted_set_worker [of w k x])
       (simp_all add: holds_message_def set_worker_def qsize_def)
next
  case (holding x m)
  show ?thesis unfolding holding(3)
    using assms(2) holding
    by (intro accounted_set_worker [of w k x])
       (simp_all add: holds_message_def set_worker_def)
next
  case (stop x)
  show ?thesis unfolding stop(3)
    using assms(2) stop
    by (intro accounted_set_worker [of w k x])
       (simp_all add: holds_message_def set_worker_def)
next
  case (task x target args task_name queueing_time)
  show ?thesis unfolding task(3)
    using assms(2) task
    by (intro accounted_set_worker [of w k x])
       (simp_all add: holds_message_def set_worker_def ProcessTask_frame)
next
  case (ack_fail x a)
  from assms(2) ack_fail(1) have "k < thread_counter w" by (simp add: accounted_def)
  moreover from ack_fail(1,2) have "holds_message w k" by (simp add: holds_message_def)
  ultimately have "0 < in_flight w" by (rule in_flight_positive)
  with assms(2) ack_fail(3) show ?thesis by (simp add: accounted_def)
next
  case (ack x a)
  show ?thesis unfolding ack(4)
    using assms(2) ack
    by (intro accounted_set_worker [of w k x])
       (cases a; simp add: holds_message_def set_worker_def qsize_def)+
next
  case (timeout x)
  show ?thesis unfolding timeout(3)
    using assms(2) timeout
    by (intro accounted_set_worker [of w k x])
       (simp_all add: holds_message_def set_worker_def RemoveFromPool_frame)
next
  case (young x)
  show ?thesis unfolding young(4)
    using assms(2) young
    by (intro accounted_set_worker [of w k x])
       (simp_all add: holds_message_def set_worker_def)
next
  case (aged x)
  show ?thesis unfolding aged(4)
    using assms(2) aged
    by (intro accounted_set_worker [of w k x])
       (simp_all add: holds_message_def set_worker_def RemoveFromPool_frame)
qed

lemma Start_loop_accounted: "accounted w \<Longrightarrow> accounted (snd (Start_loop n spawn i w))"
proof (induction n arbitrary: i w)
  case 0
  then show ?case by simp
next
  case (Suc n)
  obtain r u where a: "AddWorker (spawn i) w = (r, u)" by (cases "AddWorker (spawn i) w")
  from Suc.prems have u: "accounted u" using AddWorker_accounted [of w "spawn i"] a by simp
  show ?case
  proof (cases r)
    case None
    with a Suc.IH [OF u] show ?thesis by simp
  next
    case (Some e)
    with a u show ?thesis by simp
  qed
qed

lemma AddTask_try_world:
  "(\<exists>q. put_nowait (Task (target, args, task_name, now w)) (queue (pool w)) = Some q
        \<and> snd (AddTask_try cpu_percent start_result target args task_name blocking inline w)
            = w\<lparr>pool := (pool w)\<lparr>queue := q\<rparr>\<rparr>)
   \<or> snd (AddTask_try cpu_percent start_result target args task_name blocking inline w) = w
   \<or> snd (AddTask_try cpu_percent start_result target args task_name blocking inline w)
        = snd (AddWorker start_result w)
   \<or> (\<exists>l. snd (AddTask_try cpu_percent start_result target args task_name blocking inline w)
        = (snd (AddWorker start_result w))\<lparr>LOG := l\<rparr>)"
proof (cases "put_nowait (Task (target, args, task_name, now w)) (queue (pool w))")
  case (Some q)
  then show ?thesis by (simp add: AddTask_try_def)
next
  case None
  show ?thesis
  proof (cases "len w < max_threads (pool w) \<and> CPUUsage (pool w) cpu_percent < 90")
    case False
    with None have "snd (AddTask_try cpu_percent start_result target args task_name blocking inline w) = w"
      by (auto simp add: AddTask_try_cases)
    then show ?thesis by simp
  next
    case True
    show ?thesis
    proof (cases start_result)
      case None': None
      with None True
      have "snd (AddTask_try cpu_percent start_result target args task_name blocking inline w)
        = snd (AddWorker start_result w)"
        by (simp add: AddTask_try_cases)
      then show ?thesis by simp
    next
      case (Some e)
      with None True
      have "snd (AddTask_try cpu_percent start_result target args task_name blocking inline w)
          = snd (AddWorker start_result w)
        \<or> snd (AddTask_try cpu_percent start_result target args task_name blocking inline w)
          = (snd (AddWorker start_result w))\<lparr>LOG := LOG w @
                        [(ERROR, ''Threadpool exception: Could not spawn worker threads.'', [])]\<rparr>"
        by (simp add: AddTask_try_cases)
      then show ?thesis by blast
    qed
  qed
qed

lemma AddTask_try_accounted:
  assumes "accounted w"
  shows "accounted (snd (AddTask_try cpu_percent start_result target args task_name blocking inline w))"
proof -
  let ?u = "snd (AddTask_try cpu_percent start_result target args task_name blocking inline w)"
  note a = AddWorker_accounted [OF assms, of start_result]
  from AddTask_try_world [of target args task_name w cpu_percent start_result blocking inline]
  consider q where "put_nowait (Task (target, args, task_name, now w)) (queue (pool w)) = Some q"
      "?u = w\<lparr>pool := (pool w)\<lparr>queue := q\<rparr>\<rparr>"
    | "?u = w" | "?u = snd (AddWorker start_result w)"
    | l where "?u = (snd (AddWorker start_result w))\<lparr>LOG := l\<rparr>"
    by blast
  then show ?thesis
  proof cases
    case 1
    from assms 1(1) have "accounted (w\<lparr>pool := (pool w)\<lparr>queue := q\<rparr>\<rparr>)"
      by (rule accounted_put) simp_all
    with 1(2) show ?thesis by simp
  next
    case 2
    with assms show ?thesis by simp
  next
    case 3
    with a show ?thesis by simp
  next
    case 4
    from a have "accounted ((snd (AddWorker start_result w))\<lparr>LOG := l\<rparr>)"
      by (rule accounted_frame) simp_all
    with 4 show ?thesis by simp
  qed
qed

lemma Stop_step_accounted:
  assumes "Stop_step w = Some w'" and "accounted w"
  shows "accounted w'"
proof (cases "stop_call w")
  case None
  with assms(1) show ?thesis by (simp add: Stop_step_def)
next
  case (Some sp)
  show ?thesis
  proof (cases sp)
    case (Pushing captured n)
    show ?thesis
    proof (cases n)
      case 0
      with Pushing Some assms(1)
      have eq: "w' = w\<lparr>pool := (pool w)\<lparr>started := False\<rparr>, stop_call := Some (Joining captured)\<rparr>"
        by (simp add: Stop_step_def)
      from assms(2) show ?thesis unfolding eq by (rule accounted_frame) simp_all
    next
      case (Suc m)
      show ?thesis
      proof (cases "put_nowait STOP_MESSAGE (queue (pool w))")
        case None
        with Suc Pushing Some assms(1) show ?thesis by (simp add: Stop_step_def)
      next
        case (Some q)
        with Suc Pushing \<open>stop_call w = Some sp\<close> assms(1)
        have w': "w' = w\<lparr>pool := (pool w)\<lparr>queue := q\<rparr>, stop_call := Some (Pushing captured m)\<rparr>"
          by (simp add: Stop_step_def)
        from assms(2) Some show ?thesis unfolding w' by (rule accounted_put) simp_all
      qed
    qed
  next
    case (Joining captured)
    with Some assms(1) have eq: "w' = w\<lparr>stop_call := Some (JoiningWorkers captured)\<rparr>"
      by (simp add: Stop_step_def split: if_splits)
    from assms(2) show ?thesis unfolding eq by (rule accounted_frame) simp_all
  next
    case (JoiningWorkers captured)
    with Some assms(1) have eq: "w' = w\<lparr>stop_call := None\<rparr>"
      by (simp add: Stop_step_def split: if_splits)
    from assms(2) show ?thesis unfolding eq by (rule accounted_frame) simp_all
  qed
qed

lemma step_accounted:
  assumes "step e w = Some w'" and "accounted w"
  shows "accounted w'"
proof (cases e)
  case (Call_Start spawn)
  with assms(1) have w': "w' = snd (Start spawn w)" by (simp split: if_splits)
  show ?thesis
  proof (cases "started (pool w)")
    case True
    with w' assms(2) show ?thesis by (simp add: Start_def)
  next
    case False
    from assms(2) have "accounted (w\<lparr>pool := (pool w)\<lparr>started := True\<rparr>\<rparr>)"
      by (rule accounted_frame) simp_all
    then have "accounted (snd (Start_loop (min_threads (pool w)) spawn 0
        (w\<lparr>pool := (pool w)\<lparr>started := True\<rparr>\<rparr>)))" by (rule Start_loop_accounted)
    with False w' show ?thesis by (simp add: Start_def)
  qed
next
  case Call_Stop
  with assms(1) have w': "w' = Stop_enter w" by (simp split: if_splits)
  have "threads (Stop_enter w) = threads w" "thread_counter (Stop_enter w) = thread_counter w"
    "queue (pool (Stop_enter w)) = queue (pool w)"
    by (simp_all add: Stop_enter_def)
  with assms(2) show ?thesis unfolding w' by (rule accounted_frame)
next
  case Stop_continues
  with assms(1) have "Stop_step w = Some w'" by simp
  then show ?thesis using assms(2) by (rule Stop_step_accounted)
next
  case (AddTask_pass cpu_percent start_result target args task_name blocking inline)
  show ?thesis
  proof (cases "max_threads (pool w) = 0")
    case True
    with AddTask_pass assms(1) have "w' = w" by (simp split: if_splits)
    with assms(2) show ?thesis by simp
  next
    case False
    with AddTask_pass assms(1)
    have "w' = snd (AddTask_try cpu_percent start_result target args task_name
                      (if inline then False else blocking) inline w)"
      by (simp split: if_splits)
    with assms(2) show ?thesis by (simp add: AddTask_try_accounted)
  qed
next
  case (AddTask_blocked target args task_name)
  with assms(1) have w': "w' = snd (AddTask_blocking_put target args task_name w)"
    by (simp split: if_splits)
  show ?thesis
  proof (cases "put_nowait (Task (target, args, task_name, now w)) (queue (pool w))")
    case None
    with w' assms(2) show ?thesis by (simp add: AddTask_blocking_put_def)
  next
    case (Some q)
    with w' have "w' = w\<lparr>pool := (pool w)\<lparr>queue := q\<rparr>\<rparr>"
      by (simp add: AddTask_blocking_put_def)
    moreover from assms(2) Some have "accounted (w\<lparr>pool := (pool w)\<lparr>queue := q\<rparr>\<rparr>)"
      by (rule accounted_put) simp_all
    ultimately show ?thesis by simp
  qed
next
  case (Worker_step k)
  with assms(1) have "run_step k w = Some w'" by simp
  then show ?thesis using assms(2) by (rule run_step_accounted)
next
  case (Tick d)
  with assms(1) have eq: "w' = w\<lparr>now := now w + d\<rparr>" by (simp split: if_splits)
  from assms(2) show ?thesis unfolding eq by (rule accounted_frame) simp_all
qed

lemma run_accounted: "run evs w = Some w' \<Longrightarrow> accounted w \<Longrightarrow> accounted w'"
proof (induction evs arbitrary: w)
  case Nil
  then show ?case by simp
next
  case (Cons e evs)
  from Cons.prems(1) obtain u where s: "step e w = Some u" and r: "run evs u = Some w'"
    by (auto split: option.splits)
  from s Cons.prems(2) have "accounted u" by (rule step_accounted)
  with r show ?case by (rule Cons.IH)
qed


text \<open>
  C4, as stated, fails: the worker that has taken the stop message does pass through
  the \<^verbatim>\<open>finally\<close> clause of line 157. In the run below it stands at that
  \<^verbatim>\<open>task_done\<close> with one unfinished task, the stop message, and its next step
  acknowledges it and ends the thread.
\<close>

theorem worker_acknowledges_stop_message:
  "map_option (\<lambda>w. acknowledging_stop w 0) (run worker_gets_stop (world_of w_pool w_stats))
     = Some True
   \<and> map_option (\<lambda>w. unfinished_tasks (queue (pool w)))
       (run worker_gets_stop (world_of w_pool w_stats)) = Some 1
   \<and> map_option (\<lambda>w. (has_exited w 0, unfinished_tasks (queue (pool w))))
       (run (worker_gets_stop @ [Worker_step 0]) (world_of w_pool w_stats)) = Some (True, 0)"
  by code_simp

text \<open>
  C4, amended. In every state reached from an accounted one (a state is accounted
  when the counter of unfinished tasks is the number of queued messages plus the
  number of messages held by workers): a worker that holds the stop message goes to
  the \<^verbatim>\<open>finally\<close> clause without calling \<^verbatim>\<open>ProcessTask\<close>; there \<^verbatim>\<open>task_done\<close> is
  invoked for the stop message, succeeds, lowers the counter by one, and the thread
  ends; \<^verbatim>\<open>Stop\<close> sets out to put one stop message per captured worker and puts one
  at each step; the state stays accounted, so that the counter is zero, and the
  \<^verbatim>\<open>Join\<close> inside \<^verbatim>\<open>Stop\<close> returns, once the queue is empty and no worker holds a
  message.
\<close>

theorem stop_message_is_acknowledged:
  assumes "accounted w0" and "run evs w0 = Some w"
  shows "accounted w
    \<and> (elements (queue (pool w)) = [] \<and> in_flight w = 0 \<longrightarrow> join_returns (queue (pool w)))
    \<and> (\<forall>k x. threads w k = Some x \<and> pc x = InTry STOP_MESSAGE \<longrightarrow>
          run_step k w = Some (set_worker k (x\<lparr>pc := AtTaskDone ThenReturn\<rparr>) w))
    \<and> (\<forall>k x. threads w k = Some x \<and> pc x = AtTaskDone ThenReturn \<longrightarrow>
          (\<exists>q. task_done (queue (pool w)) = Inr q
             \<and> Suc (unfinished_tasks q) = unfinished_tasks (queue (pool w))
             \<and> run_step k w =
                 Some (set_worker k (x\<lparr>pc := Exited\<rparr>) (w\<lparr>pool := (pool w)\<lparr>queue := q\<rparr>\<rparr>))))
    \<and> (started (pool w) \<longrightarrow>
          stop_call (Stop_enter w)
            = Some (Pushing (workers (pool w)) (length (workers (pool w)))))
    \<and> (\<forall>captured n q. stop_call w = Some (Pushing captured (Suc n))
            \<and> put_nowait STOP_MESSAGE (queue (pool w)) = Some q \<longrightarrow>
          Stop_step w
            = Some (w\<lparr>pool := (pool w)\<lparr>queue := q\<rparr>, stop_call := Some (Pushing captured n)\<rparr>))
    \<and> (\<forall>captured. stop_call w = Some (Joining captured)
            \<and> elements (queue (pool w)) = [] \<and> in_flight w = 0 \<longrightarrow>
          Stop_step w = Some (w\<lparr>stop_call := Some (JoiningWorkers captured)\<rparr>))"
proof -
  from assms(2,1) have a: "accounted w" by (rule run_accounted)
  then have j: "elements (queue (pool w)) = [] \<and> in_flight w = 0 \<longrightarrow> join_returns (queue (pool w))"
    by (simp add: accounted_def join_returns_def qsize_def)
  have s: "\<forall>k x. threads w k = Some x \<and> pc x = InTry STOP_MESSAGE \<longrightarrow>
          run_step k w = Some (set_worker k (x\<lparr>pc := AtTaskDone ThenReturn\<rparr>) w)"
    by (simp add: run_step_def)
  have d: "\<forall>k x. threads w k = Some x \<and> pc x = AtTaskDone ThenReturn \<longrightarrow>
          (\<exists>q. task_done (queue (pool w)) = Inr q
             \<and> Suc (unfinished_tasks q) = unfinished_tasks (queue (pool w))
             \<and> run_step k w =
                 Some (set_worker k (x\<lparr>pc := Exited\<rparr>) (w\<lparr>pool := (pool w)\<lparr>queue := q\<rparr>\<rparr>)))"
  proof (intro allI impI)
    fix k x assume h: "threads w k = Some x \<and> pc x = AtTaskDone ThenReturn"
    with a have "k < thread_counter w" by (simp add: accounted_def)
    moreover from h have "holds_message w k" by (simp add: holds_message_def)
    ultimately have "0 < in_flight w" by (rule in_flight_positive)
    with a have u: "unfinished_tasks (queue (pool w)) \<noteq> 0" by (simp add: accounted_def)
    let ?q = "(queue (pool w))\<lparr>unfinished_tasks := unfinished_tasks (queue (pool w)) - 1\<rparr>"
    from u have "task_done (queue (pool w)) = Inr ?q" by (simp add: task_done_def)
    moreover from u have "Suc (unfinished_tasks ?q) = unfinished_tasks (queue (pool w))" by simp
    moreover from u h have "run_step k w =
        Some (set_worker k (x\<lparr>pc := Exited\<rparr>) (w\<lparr>pool := (pool w)\<lparr>queue := ?q\<rparr>\<rparr>))"
      by (simp add: run_step_def task_done_def)
    ultimately show "\<exists>q. task_done (queue (pool w)) = Inr q
             \<and> Suc (unfinished_tasks q) = unfinished_tasks (queue (pool w))
             \<and> run_step k w =
                 Some (set_worker k (x\<lparr>pc := Exited\<rparr>) (w\<lparr>pool := (pool w)\<lparr>queue := q\<rparr>\<rparr>))"
      by (intro exI [of _ ?q] conjI)
  qed
  have e: "started (pool w) \<longrightarrow>
          stop_call (Stop_enter w)
            = Some (Pushing (workers (pool w)) (length (workers (pool w))))"
    by (simp add: Stop_enter_def)
  have p: "\<forall>captured n q. stop_call w = Some (Pushing captured (Suc n))
            \<and> put_nowait STOP_MESSAGE (queue (pool w)) = Some q \<longrightarrow>
          Stop_step w
            = Some (w\<lparr>pool := (pool w)\<lparr>queue := q\<rparr>, stop_call := Some (Pushing captured n)\<rparr>)"
    by (simp add: Stop_step_def)
  have g: "\<forall>captured. stop_call w = Some (Joining captured)
            \<and> elements (queue (pool w)) = [] \<and> in_flight w = 0 \<longrightarrow>
          Stop_step w = Some (w\<lparr>stop_call := Some (JoiningWorkers captured)\<rparr>)"
    using j by (simp add: Stop_step_def)
  from a j s d e p g show ?thesis by (intro conjI)
qed

lemma w_world_accounted: "accounted (world_of w_pool w_stats)"
  by (simp add: accounted_def world_of_def w_pool_def in_flight_def Queue_init_def qsize_def)

theorem stop_message_is_acknowledged_witness:
  "accounted (world_of w_pool w_stats)
   \<and> map_option (\<lambda>w. (qsize (queue (pool w)), in_flight w))
       (run (worker_gets_stop @ [Worker_step 0]) (world_of w_pool w_stats)) = Some (0, 0)
   \<and> (\<exists>w. run (worker_gets_stop @ [Worker_step 0]) (world_of w_pool w_stats) = Some w
         \<and> accounted w \<and> join_returns (queue (pool w)))
   \<and> map_option (\<lambda>w. (stop_call w, started (pool w), len w, has_exited w 0))
       (run (worker_gets_stop @ Worker_step 0 # stop_returns) (world_of w_pool w_stats))
        = Some (None, False, 0, True)"
proof -
  let ?w0 = "world_of w_pool w_stats"
  have q: "map_option (\<lambda>w. (qsize (queue (pool w)), in_flight w))
       (run (worker_gets_stop @ [Worker_step 0]) ?w0) = Some (0, 0)" by code_simp
  then obtain w where w: "run (worker_gets_stop @ [Worker_step 0]) ?w0 = Some w"
    and z: "qsize (queue (pool w)) = 0" "in_flight w = 0" by auto
  from z(1) have e: "elements (queue (pool w)) = []" by (simp add: qsize_def)
  from stop_message_is_acknowledged [OF w_world_accounted w] e z(2)
  have "accounted w \<and> join_returns (queue (pool w))" by blast
  with w have x: "\<exists>w. run (worker_gets_stop @ [Worker_step 0]) ?w0 = Some w
         \<and> accounted w \<and> join_returns (queue (pool w))" by blast
  have r: "map_option (\<lambda>w. (stop_call w, started (pool w), len w, has_exited w 0))
       (run (worker_gets_stop @ Worker_step 0 # stop_returns) ?w0) = Some (None, False, 0, True)"
    by code_simp
  from w_world_accounted q x r show ?thesis by (intro conjI)
qed

end
